theory Spec2Isabelle
  imports Main "HOL-Library.Sublist" "HOL-Library.Multiset"
begin

section \<open>Data model of merge_zsh_histories.go\<close>

text \<open>
  Go strings are byte sequences; they are modelled as \<open>char list\<close> (one \<open>char\<close> per
  byte). \<open>HistoryEntry\<close> is the struct of the source; \<open>Time\<close> is an \<open>int64\<close> and
  \<open>Duration\<close> an \<open>int\<close>, both modelled as mathematical integers whose range is
  enforced where they are created, by the parser (\<open>ParseInt\<close> and \<open>Atoi\<close> below).
  \<open>CommandMap\<close> is the Go map from command text to entry.
\<close>

record HistoryEntry =
  Command :: string
  Time :: int
  Duration :: int

type_synonym CommandMap = "string \<rightharpoonup> HistoryEntry"

subsection \<open>The deduplicator (lines 85 to 87 of processHistoryFile)\<close>

text \<open>
  \<^verbatim>\<open>if existing, exists := commands[entry.Command]; !exists || entry.Time > existing.Time {
      commands[entry.Command] = entry }\<close>
\<close>

definition upsert :: "CommandMap \<Rightarrow> HistoryEntry \<Rightarrow> CommandMap" where
  "upsert commands entry =
     (case commands (Command entry) of
        None \<Rightarrow> commands(Command entry \<mapsto> entry)
      | Some existing \<Rightarrow>
          if Time entry > Time existing then commands(Command entry \<mapsto> entry)
          else commands)"

text \<open>Feeding a sequence of parsed records to the deduplicator, in file-then-line order.\<close>

definition dedup :: "CommandMap \<Rightarrow> HistoryEntry list \<Rightarrow> CommandMap" where
  "dedup commands entries = foldl upsert commands entries"

text \<open>
  Position \<open>i\<close> of a sequence of records holds the first record, among those with
  command \<open>k\<close>, that carries the greatest timestamp: every earlier record with this
  command is strictly older, no later one is newer.
\<close>

definition first_latest_at :: "HistoryEntry list \<Rightarrow> string \<Rightarrow> nat \<Rightarrow> bool" where
  "first_latest_at es k i \<longleftrightarrow>
     i < length es \<and> Command (es ! i) = k \<and>
     (\<forall>j<i. Command (es ! j) = k \<longrightarrow> Time (es ! j) < Time (es ! i)) \<and>
     (\<forall>j<length es. i < j \<longrightarrow> Command (es ! j) = k \<longrightarrow> Time (es ! j) \<le> Time (es ! i))"

section \<open>Strings, characters and the library functions the program calls\<close>

definition backslash :: char where
  "backslash = CHR 0x5C"

definition newline :: char where
  "newline = CHR 0x0A"

text \<open>The regular expression class \<open>\d\<close> of Go (RE2): the ASCII digits.\<close>

definition is_digit :: "char \<Rightarrow> bool" where
  "is_digit c \<longleftrightarrow> (48::nat) \<le> of_char c \<and> of_char c \<le> (57::nat)"

text \<open>The class \<open>\s\<close> of Go (RE2): tab, line feed, form feed, carriage return, space.\<close>

definition is_space :: "char \<Rightarrow> bool" where
  "is_space c \<longleftrightarrow> (of_char c :: nat) \<in> {9, 10, 12, 13, 32}"

text \<open>
  The white space \<open>strings.TrimSpace\<close> removes, restricted to ASCII: tab, line feed,
  vertical tab, form feed, carriage return and space. The program only trims the two
  fields of a line that \<open>validLineRegex\<close> accepted; these hold a space and decimal
  digits, so the white space outside ASCII that Go also trims cannot occur there.
\<close>

definition is_trim_space :: "char \<Rightarrow> bool" where
  "is_trim_space c \<longleftrightarrow> (of_char c :: nat) \<in> {9, 10, 11, 12, 13, 32}"

definition TrimSpace :: "string \<Rightarrow> string" where
  "TrimSpace s = rev (dropWhile is_trim_space (rev (dropWhile is_trim_space s)))"

text \<open>\<open>strings.Split(s, sep)\<close> for a separator of one byte: never an empty list.\<close>

fun Split :: "char \<Rightarrow> string \<Rightarrow> string list" where
  "Split sep [] = [[]]"
| "Split sep (c # cs) =
     (if c = sep then [] # Split sep cs
      else (case Split sep cs of
              [] \<Rightarrow> [[c]]
            | l # ls \<Rightarrow> (c # l) # ls))"

text \<open>\<open>strings.SplitN(s, sep, 2)\<close>: cut at the first separator, if there is one.\<close>

definition SplitN2 :: "char \<Rightarrow> string \<Rightarrow> string list" where
  "SplitN2 sep s =
     (if sep \<in> set s
      then [takeWhile (\<lambda>c. c \<noteq> sep) s, tl (dropWhile (\<lambda>c. c \<noteq> sep) s)]
      else [s])"

text \<open>\<open>strings.HasSuffix(line, `\`)\<close> and \<open>strings.TrimSuffix(line, `\`)\<close>.\<close>

definition HasSuffix_backslash :: "string \<Rightarrow> bool" where
  "HasSuffix_backslash line \<longleftrightarrow> line \<noteq> [] \<and> last line = backslash"

definition TrimSuffix_backslash :: "string \<Rightarrow> string" where
  "TrimSuffix_backslash line = (if HasSuffix_backslash line then butlast line else line)"

subsection \<open>Decimal numbers: strconv.ParseInt, strconv.Atoi and the verb %d\<close>

definition digit_val :: "char \<Rightarrow> nat" where
  "digit_val c = of_char c - 48"

definition digits_val :: "string \<Rightarrow> nat" where
  "digits_val s = foldl (\<lambda>a c. 10 * a + digit_val c) 0 s"

text \<open>
  \<open>strconv.ParseInt(s, 10, bitSize)\<close>: an optional sign, then one decimal digit at
  least and nothing else; the value must fit the signed type of \<open>bitSize\<close> bits.
  \<open>None\<close> is the error (syntax or range; the program does not tell them apart).
\<close>

definition ParseInt :: "string \<Rightarrow> nat \<Rightarrow> int option" where
  "ParseInt s bitSize =
     (case s of
        [] \<Rightarrow> None
      | c # r \<Rightarrow>
          (let neg = (c = CHR ''-'');
               ds = (if c = CHR ''+'' \<or> c = CHR ''-'' then r else s)
           in if ds = [] \<or> \<not> list_all is_digit ds then None
              else if \<not> neg \<and> digits_val ds \<ge> 2 ^ (bitSize - 1) then None
              else if neg \<and> digits_val ds > 2 ^ (bitSize - 1) then None
              else Some (if neg then - int (digits_val ds) else int (digits_val ds))))"

text \<open>The size of Go's \<open>int\<close> (\<open>strconv.IntSize\<close>) on the 64-bit targets.\<close>

definition IntSize :: nat where
  "IntSize = 64"

definition Atoi :: "string \<Rightarrow> int option" where
  "Atoi s = ParseInt s IntSize"

fun dec :: "nat \<Rightarrow> string" where
  "dec n = (if n < 10 then [char_of (48 + n)] else dec (n div 10) @ [char_of (48 + n mod 10)])"

declare dec.simps [simp del]

text \<open>The verb \<open>%d\<close>: a minus sign for a negative number, then the decimal digits.\<close>

definition format_d :: "int \<Rightarrow> string" where
  "format_d i = (if i < 0 then CHR ''-'' # dec (nat (- i)) else dec (nat i))"

text \<open>A width, as in \<open>%11d\<close>: spaces on the left up to the width, never a cut.\<close>

definition pad_left :: "nat \<Rightarrow> string \<Rightarrow> string" where
  "pad_left w s = replicate (w - length s) CHR '' '' @ s"

section \<open>The validator and the parser\<close>

text \<open>
  \<open>validLineRegex = ^: \d{10,}:\d+;\<close> matched against a whole logical line (no
  multi-line flag, so \<open>^\<close> is the start of the text). After each run of digits the
  pattern asks for a character that is not a digit, so the run the match takes is the
  whole run of digits found there.
\<close>

definition validLineRegex :: "string \<Rightarrow> bool" where
  "validLineRegex line =
     (case line of
        c1 # c2 # r \<Rightarrow>
          c1 = CHR '':'' \<and> c2 = CHR '' '' \<and> 10 \<le> length (takeWhile is_digit r) \<and>
          (case dropWhile is_digit r of
             c3 # r2 \<Rightarrow>
               c3 = CHR '':'' \<and> 1 \<le> length (takeWhile is_digit r2) \<and>
               (case dropWhile is_digit r2 of
                  c4 # r3 \<Rightarrow> c4 = CHR '';''
                | [] \<Rightarrow> False)
           | [] \<Rightarrow> False)
      | _ \<Rightarrow> False)"

datatype parse_error =
  InvalidLineFormat | InvalidTimestampFormat | InvalidTimestamp | InvalidDuration

text \<open>\<open>parseHistoryLine\<close> (lines 157 to 188).\<close>

definition parseHistoryLine :: "string \<Rightarrow> parse_error + HistoryEntry" where
  "parseHistoryLine line =
     (case SplitN2 (CHR '';'') line of
        [description, command] \<Rightarrow>
          (case Split (CHR '':'') description of
             [t0, t1, t2] \<Rightarrow>
               if t0 \<noteq> [] \<or> t1 = [] then Inl InvalidTimestampFormat
               else (case ParseInt (TrimSpace t1) 64 of
                       None \<Rightarrow> Inl InvalidTimestamp
                     | Some timestamp \<Rightarrow>
                         (case Atoi (TrimSpace t2) of
                            None \<Rightarrow> Inl InvalidDuration
                          | Some duration \<Rightarrow>
                              Inr \<lparr>Command = command, Time = timestamp, Duration = duration\<rparr>))
           | _ \<Rightarrow> Inl InvalidTimestampFormat)
      | _ \<Rightarrow> Inl InvalidLineFormat)"

text \<open>
  The three fields of a line the validator accepted, read off the line: the digits of
  the timestamp, the digits of the duration, and the command after the first semicolon;
  the record they denote; and the condition under which \<open>ParseInt\<close> (64 bits) and
  \<open>Atoi\<close> accept the two numbers.
\<close>

definition timestamp_field :: "string \<Rightarrow> string" where
  "timestamp_field line = takeWhile is_digit (drop 2 line)"

definition duration_field :: "string \<Rightarrow> string" where
  "duration_field line = takeWhile is_digit (drop 1 (dropWhile is_digit (drop 2 line)))"

definition command_field :: "string \<Rightarrow> string" where
  "command_field line = tl (dropWhile (\<lambda>c. c \<noteq> CHR '';'') line)"

definition fields_in_range :: "string \<Rightarrow> bool" where
  "fields_in_range line \<longleftrightarrow>
     digits_val (timestamp_field line) < 2 ^ 63 \<and>
     digits_val (duration_field line) < 2 ^ (IntSize - 1)"

definition entry_of_line :: "string \<Rightarrow> HistoryEntry" where
  "entry_of_line line =
     \<lparr>Command = command_field line,
      Time = int (digits_val (timestamp_field line)),
      Duration = int (digits_val (duration_field line))\<rparr>"

section \<open>The continuation normalizer\<close>

text \<open>
  \<open>timestampRegex = :\s*\d{10,}\<close> as \<open>MatchString\<close> uses it: the pattern has no
  anchor, so it matches when it matches at some position of the line.
  \<open>timestamp_here\<close> is a match starting at the head of the text: a colon, all the
  white space that follows, then ten digits or more.
\<close>

definition timestamp_here :: "string \<Rightarrow> bool" where
  "timestamp_here s =
     (case s of
        [] \<Rightarrow> False
      | c # r \<Rightarrow> c = CHR '':'' \<and> 10 \<le> length (takeWhile is_digit (dropWhile is_space r)))"

fun timestampRegex :: "string \<Rightarrow> bool" where
  "timestampRegex [] = False"
| "timestampRegex (c # r) = (timestamp_here (c # r) \<or> timestampRegex r)"

text \<open>
  The body of the loop of \<open>replaceMultilineCommands\<close> for one line: \<open>next\<close> is
  \<open>Some\<close> of the following line when \<open>i+1 < len(lines)\<close>, and what is returned is
  what this iteration writes to the builder.
\<close>

definition write_line :: "string \<Rightarrow> string option \<Rightarrow> string \<Rightarrow> string" where
  "write_line line next multilineCommand =
     (case next of
        Some nextLine \<Rightarrow>
          if HasSuffix_backslash line then
            if \<not> timestampRegex nextLine
            then TrimSuffix_backslash line @ multilineCommand
            else line @ [newline]
          else line @ [newline]
      | None \<Rightarrow> line)"

fun replace_loop :: "string list \<Rightarrow> string \<Rightarrow> string" where
  "replace_loop [] multilineCommand = []"
| "replace_loop [line] multilineCommand = write_line line None multilineCommand"
| "replace_loop (line # nextLine # rest) multilineCommand =
     write_line line (Some nextLine) multilineCommand
       @ replace_loop (nextLine # rest) multilineCommand"

definition replaceMultilineCommands :: "string \<Rightarrow> string \<Rightarrow> string" where
  "replaceMultilineCommands content multilineCommand =
     replace_loop (Split newline content) multilineCommand"

text \<open>
  The line that follows line \<open>i\<close>, when there is one (\<open>i+1 < len(lines)\<close>).
\<close>

definition following_line :: "string list \<Rightarrow> nat \<Rightarrow> string option" where
  "following_line ls i = (if Suc i < length ls then Some (ls ! Suc i) else None)"

text \<open>
  The start of a record as the specification words it for the normalizer: the field
  marker, a numeric timestamp of ten digits at least, and a colon. White space between
  the marker and the timestamp is allowed, as in the pattern of the code.
\<close>

definition spec_record_start :: "string \<Rightarrow> bool" where
  "spec_record_start line =
     (case line of
        [] \<Rightarrow> False
      | c # r \<Rightarrow>
          c = CHR '':'' \<and> 10 \<le> length (takeWhile is_digit (dropWhile is_space r)) \<and>
          (case dropWhile is_digit (dropWhile is_space r) of
             [] \<Rightarrow> False
           | c2 # r2 \<Rightarrow> c2 = CHR '':''))"

section \<open>The loader and its sanitizer\<close>

subsection \<open>The package unicode/utf8\<close>

text \<open>
  Bytes and runes are natural numbers here (\<open>of_char\<close> of a byte). The masks and shifts
  of the package are written with \<open>mod\<close>, \<open>div\<close> and \<open>+\<close>: the bit fields they
  combine never overlap. \<open>first_size\<close> is the size the table \<open>first\<close> gives for a
  leading byte (1 for ASCII, 0 for an invalid leading byte), \<open>accept_lo\<close> and
  \<open>accept_hi\<close> the range the table \<open>acceptRanges\<close> allows for the second byte.
\<close>

definition RuneError :: nat where
  "RuneError = 0xFFFD"

definition first_size :: "nat \<Rightarrow> nat" where
  "first_size b =
     (if b < 0x80 then 1 else if b < 0xC2 then 0 else if b < 0xE0 then 2
      else if b < 0xF0 then 3 else if b < 0xF5 then 4 else 0)"

definition accept_lo :: "nat \<Rightarrow> nat" where
  "accept_lo b = (if b = 0xE0 then 0xA0 else if b = 0xF0 then 0x90 else 0x80)"

definition accept_hi :: "nat \<Rightarrow> nat" where
  "accept_hi b = (if b = 0xED then 0x9F else if b = 0xF4 then 0x8F else 0xBF)"

text \<open>\<open>utf8.DecodeRuneInString\<close>: the rune and its width in bytes.\<close>

definition DecodeRune :: "nat list \<Rightarrow> nat \<times> nat" where
  "DecodeRune s =
     (case s of
        [] \<Rightarrow> (RuneError, 0)
      | s0 # t \<Rightarrow>
          if first_size s0 = 1 then (s0, 1)
          else if first_size s0 = 0 then (RuneError, 1)
          else if length s < first_size s0 then (RuneError, 1)
          else if t ! 0 < accept_lo s0 \<or> accept_hi s0 < t ! 0 then (RuneError, 1)
          else if first_size s0 \<le> 2 then (s0 mod 32 * 64 + t ! 0 mod 64, 2)
          else if t ! 1 < 0x80 \<or> 0xBF < t ! 1 then (RuneError, 1)
          else if first_size s0 \<le> 3
            then (s0 mod 16 * 4096 + t ! 0 mod 64 * 64 + t ! 1 mod 64, 3)
          else if t ! 2 < 0x80 \<or> 0xBF < t ! 2 then (RuneError, 1)
          else (s0 mod 8 * 262144 + t ! 0 mod 64 * 4096 + t ! 1 mod 64 * 64 + t ! 2 mod 64, 4))"

definition DecodeRuneInString :: "string \<Rightarrow> nat \<times> nat" where
  "DecodeRuneInString s = DecodeRune (map of_char s)"

text \<open>\<open>utf8.AppendRune\<close>, which \<open>Builder.WriteRune\<close> calls.\<close>

definition EncodeRune :: "nat \<Rightarrow> nat list" where
  "EncodeRune r =
     (if r \<le> 0x7F then [r]
      else if r \<le> 0x7FF then [0xC0 + r div 64, 0x80 + r mod 64]
      else if r > 0x10FFFF \<or> (0xD800 \<le> r \<and> r \<le> 0xDFFF) then [0xEF, 0xBF, 0xBD]
      else if r \<le> 0xFFFF
        then [0xE0 + r div 4096, 0x80 + r div 64 mod 64, 0x80 + r mod 64]
      else [0xF0 + r div 262144, 0x80 + r div 4096 mod 64, 0x80 + r div 64 mod 64,
            0x80 + r mod 64])"

definition WriteRune :: "nat \<Rightarrow> string" where
  "WriteRune r = map char_of (EncodeRune r)"

text \<open>\<open>utf8.ValidString\<close>, as its loop over the bytes.\<close>

fun valid_bytes :: "nat list \<Rightarrow> bool" where
  "valid_bytes [] = True"
| "valid_bytes (si # t) =
     (if si < 0x80 then valid_bytes t
      else if first_size si = 0 then False
      else if Suc (length t) < first_size si then False
      else if t ! 0 < accept_lo si \<or> accept_hi si < t ! 0 then False
      else if first_size si = 2 then valid_bytes (drop 1 t)
      else if t ! 1 < 0x80 \<or> 0xBF < t ! 1 then False
      else if first_size si = 3 then valid_bytes (drop 2 t)
      else if t ! 2 < 0x80 \<or> 0xBF < t ! 2 then False
      else valid_bytes (drop 3 t))"

definition ValidString :: "string \<Rightarrow> bool" where
  "ValidString s = valid_bytes (map of_char s)"

subsection \<open>invalidUTF8 (lines 139 to 155)\<close>

text \<open>
  The loop \<open>for len(s) > 0\<close>: one rune is decoded, \<open>#\<close> is written for an invalid byte
  and the rune itself otherwise, and \<open>s = s[size:]\<close> (the width is 1 at least on a
  string that is not empty).
\<close>

fun sanitize_loop :: "string \<Rightarrow> string" where
  "sanitize_loop [] = []"
| "sanitize_loop (c # cs) =
     (if fst (DecodeRuneInString (c # cs)) = RuneError \<and> snd (DecodeRuneInString (c # cs)) = 1
      then [CHR ''#'']
      else WriteRune (fst (DecodeRuneInString (c # cs))))
     @ sanitize_loop (drop (snd (DecodeRuneInString (c # cs)) - 1) cs)"

definition invalidUTF8 :: "string \<Rightarrow> string" where
  "invalidUTF8 s = (if ValidString s then s else sanitize_loop s)"

text \<open>
  What the sanitizer does to one UTF-8 sequence of the input: an invalid byte becomes
  the marker \<open>#\<close>, anything else stays.
\<close>

definition fix_chunk :: "string \<Rightarrow> string" where
  "fix_chunk ch = (if DecodeRuneInString ch = (RuneError, 1) then [CHR ''#''] else ch)"

text \<open>
  The two range checks of the decoder, on the second byte and on a continuation byte.
\<close>

definition second_ok :: "nat \<Rightarrow> nat \<Rightarrow> bool" where
  "second_ok s0 s1 \<longleftrightarrow> \<not> (s1 < accept_lo s0 \<or> accept_hi s0 < s1)"

definition cont_ok :: "nat \<Rightarrow> bool" where
  "cont_ok b \<longleftrightarrow> \<not> (b < 0x80 \<or> 0xBF < b)"

text \<open>A decoding step either rejects the first byte or consumes a well-formed sequence.\<close>

definition good_step :: "nat list \<Rightarrow> bool" where
  "good_step bs \<longleftrightarrow>
     DecodeRune bs \<noteq> (RuneError, 1) \<and>
     1 \<le> snd (DecodeRune bs) \<and> snd (DecodeRune bs) \<le> length bs \<and>
     EncodeRune (fst (DecodeRune bs)) = take (snd (DecodeRune bs)) bs \<and>
     (\<forall>ys. DecodeRune (take (snd (DecodeRune bs)) bs @ ys) = DecodeRune bs \<and>
           valid_bytes (take (snd (DecodeRune bs)) bs @ ys) = valid_bytes ys)"

definition bad_step :: "nat list \<Rightarrow> bool" where
  "bad_step bs \<longleftrightarrow> DecodeRune bs = (RuneError, 1) \<and> \<not> valid_bytes bs"

subsection \<open>readFileContent (lines 123 to 137)\<close>

datatype error = OpenError | ErrTooLong | ParseLineError string parse_error

text \<open>
  \<open>bufio.Scanner\<close> with its default split function \<open>ScanLines\<close>: the tokens are the
  lines of the data, the line feed and one carriage return before it removed; an empty
  last line is no token. A line of \<open>MaxScanTokenSize\<close> bytes or more does not fit the
  buffer: the scanner stops with \<open>ErrTooLong\<close>.
\<close>

definition dropCR :: "string \<Rightarrow> string" where
  "dropCR data = (if data \<noteq> [] \<and> last data = CHR 0x0D then butlast data else data)"

definition ScanLines :: "string \<Rightarrow> string list" where
  "ScanLines data =
     map dropCR (if last (Split newline data) = [] then butlast (Split newline data)
                 else Split newline data)"

definition MaxScanTokenSize :: nat where
  "MaxScanTokenSize = 65536"

definition readFileContent :: "string \<Rightarrow> error + string" where
  "readFileContent data =
     (if \<exists>l \<in> set (Split newline data). MaxScanTokenSize \<le> length l then Inl ErrTooLong
      else Inr (invalidUTF8 (concat (map (\<lambda>l. l @ [newline]) (ScanLines data)))))"

section \<open>processHistoryFile and the loop of main\<close>

text \<open>The loop over the logical lines (lines 74 to 88).\<close>

fun process_lines :: "string list \<Rightarrow> CommandMap \<Rightarrow> error + CommandMap" where
  "process_lines [] commands = Inr commands"
| "process_lines (line # rest) commands =
     (if line = [] \<or> \<not> validLineRegex line then process_lines rest commands
      else (case parseHistoryLine line of
              Inl err \<Rightarrow> Inl (ParseLineError line err)
            | Inr entry \<Rightarrow> process_lines rest (upsert commands entry)))"

text \<open>
  A file is the bytes it holds, or \<open>None\<close> when \<open>os.Open\<close> fails. The Go map is
  updated in place; here the updated table is returned.
\<close>

definition processHistoryFile ::
  "string option \<Rightarrow> string \<Rightarrow> CommandMap \<Rightarrow> error + CommandMap" where
  "processHistoryFile file multilineCommand commands =
     (case file of
        None \<Rightarrow> Inl OpenError
      | Some data \<Rightarrow>
          (case readFileContent data of
             Inl err \<Rightarrow> Inl err
           | Inr content \<Rightarrow>
               process_lines
                 (Split newline (replaceMultilineCommands content multilineCommand))
                 commands))"

text \<open>
  The loop of \<open>main\<close> over the files, taken in the order \<open>sort.Strings\<close> gave their
  paths; the first error ends the run (\<open>log.Fatalf\<close>) before anything is printed.
\<close>

fun process_files :: "string option list \<Rightarrow> string \<Rightarrow> CommandMap \<Rightarrow> error + CommandMap" where
  "process_files [] multilineCommand commands = Inr commands"
| "process_files (histFile # files) multilineCommand commands =
     (case processHistoryFile histFile multilineCommand commands of
        Inl err \<Rightarrow> Inl err
      | Inr commands' \<Rightarrow> process_files files multilineCommand commands')"

text \<open>The placeholder token of a run started at Unix time \<open>now\<close>.\<close>

definition multilineCommand_at :: "int \<Rightarrow> string" where
  "multilineCommand_at now = ''TO_BE_REMOVED_'' @ format_d now"

section \<open>The sorter and emitter: outputMergedCommands (lines 190 to 208)\<close>

text \<open>
  \<open>strings.ReplaceAll(s, old, new)\<close>. For an \<open>old\<close> that is not empty the
  occurrences are replaced from the left, without overlap. An empty \<open>old\<close> matches
  before every UTF-8 sequence and at the end; \<open>utf8_chunks\<close> cuts a string into these
  sequences (an invalid byte is a sequence of its own).
\<close>

fun replace_all :: "string \<Rightarrow> string \<Rightarrow> string \<Rightarrow> string" where
  "replace_all [] old new = []"
| "replace_all (c # cs) old new =
     (if old \<noteq> [] \<and> prefix old (c # cs)
      then new @ replace_all (drop (length old - 1) cs) old new
      else c # replace_all cs old new)"

fun utf8_chunks :: "string \<Rightarrow> string list" where
  "utf8_chunks [] = []"
| "utf8_chunks (c # cs) =
     (c # take (snd (DecodeRuneInString (c # cs)) - 1) cs)
       # utf8_chunks (drop (snd (DecodeRuneInString (c # cs)) - 1) cs)"

definition ReplaceAll :: "string \<Rightarrow> string \<Rightarrow> string \<Rightarrow> string" where
  "ReplaceAll s old new =
     (if old = new then s
      else if old = [] then new @ concat (map (\<lambda>r. r @ new) (utf8_chunks s))
      else replace_all s old new)"

text \<open>
  One iteration of the output loop: the placeholder is turned back into a backslash and
  a line feed, and \<open>fmt.Printf(":%11d:%d;%s\n", ...)\<close> writes the record.
\<close>

definition format_entry :: "string \<Rightarrow> HistoryEntry \<Rightarrow> string" where
  "format_entry multilineCommand entry =
     '':'' @ pad_left 11 (format_d (Time entry)) @ '':'' @ format_d (Duration entry) @ '';''
       @ ReplaceAll (Command entry) multilineCommand [backslash, newline] @ [newline]"

text \<open>
  \<open>for _, entry := range commands\<close>: Go visits the keys of a map once each, in an
  order the language leaves open (and the runtime varies from run to run).
  \<open>range_order commands ks\<close> says that \<open>ks\<close> is one such order.
\<close>

definition range_order :: "CommandMap \<Rightarrow> string list \<Rightarrow> bool" where
  "range_order commands ks \<longleftrightarrow> distinct ks \<and> set ks = dom commands"

text \<open>
  \<open>sort.Slice(entries, less)\<close> with \<open>less i j = entries[i].Time < entries[j].Time\<close>,
  by the contract of the package: the slice is permuted so that no element is
  \<open>less\<close> than one before it; the sort is not stable.
\<close>

definition sort_Slice_Time :: "HistoryEntry list \<Rightarrow> HistoryEntry list \<Rightarrow> bool" where
  "sort_Slice_Time entries sorted_entries \<longleftrightarrow>
     mset sorted_entries = mset entries \<and>
     sorted_wrt (\<lambda>a b. \<not> Time b < Time a) sorted_entries"

text \<open>
  The sequences of entries a call may print: the values of the map in some range order,
  sorted. \<open>outputMergedCommands commands multilineCommand out\<close> holds when \<open>out\<close> is a
  text the call may write to standard output.
\<close>

definition emitted_entries :: "CommandMap \<Rightarrow> HistoryEntry list \<Rightarrow> bool" where
  "emitted_entries commands es \<longleftrightarrow>
     (\<exists>ks. range_order commands ks \<and> sort_Slice_Time (map (\<lambda>k. the (commands k)) ks) es)"

definition outputMergedCommands :: "CommandMap \<Rightarrow> string \<Rightarrow> string \<Rightarrow> bool" where
  "outputMergedCommands commands multilineCommand out \<longleftrightarrow>
     (\<exists>es. emitted_entries commands es \<and>
           out = concat (map (format_entry multilineCommand) es))"

text \<open>
  A run of \<open>main\<close> on the files (in the sorted order of their paths) with the
  placeholder \<open>multilineCommand\<close>: \<open>main_output files multilineCommand out\<close> holds
  when the run ends without a fatal error and may print \<open>out\<close>.
\<close>

definition main_output :: "string option list \<Rightarrow> string \<Rightarrow> string \<Rightarrow> bool" where
  "main_output files multilineCommand out \<longleftrightarrow>
     (case process_files files multilineCommand Map.empty of
        Inl err \<Rightarrow> False
      | Inr commands \<Rightarrow> outputMergedCommands commands multilineCommand out)"

section \<open>Records as a history file holds them\<close>

text \<open>
  A record of a history file, as text: the digits of its timestamp, the digits of its
  duration and the pieces of its command, which the file holds on consecutive physical
  lines, every line but the last ending in a backslash. \<open>record_text\<close> is the text of
  the record in the file, \<open>physical_lines\<close> its lines, \<open>logical_line\<close> the line the
  normalizer is to make of them and \<open>record_entry\<close> the entry the parser is to read.
\<close>

fun join_with :: "string \<Rightarrow> string list \<Rightarrow> string" where
  "join_with sep [] = []"
| "join_with sep [p] = p"
| "join_with sep (p # q # ps) = p @ sep @ join_with sep (q # ps)"

fun cont_lines :: "string list \<Rightarrow> string list" where
  "cont_lines [] = []"
| "cont_lines [p] = [p]"
| "cont_lines (p # q # ps) = (p @ [backslash]) # cont_lines (q # ps)"

text \<open>The pieces of a command and the physical lines they are written on.\<close>

record written_record =
  rec_time :: string
  rec_duration :: string
  rec_pieces :: "string list"

definition record_header :: "written_record \<Rightarrow> string" where
  "record_header r = '': '' @ rec_time r @ '':'' @ rec_duration r @ '';''"

definition record_text :: "written_record \<Rightarrow> string" where
  "record_text r =
     record_header r @ join_with [backslash, newline] (rec_pieces r) @ [newline]"

definition logical_line :: "string \<Rightarrow> written_record \<Rightarrow> string" where
  "logical_line tok r = record_header r @ join_with tok (rec_pieces r)"

definition record_entry :: "string \<Rightarrow> written_record \<Rightarrow> HistoryEntry" where
  "record_entry tok r =
     \<lparr>Command = join_with tok (rec_pieces r),
      Time = int (digits_val (rec_time r)),
      Duration = int (digits_val (rec_duration r))\<rparr>"

text \<open>
  The records the round trip is stated for: the numbers are decimal and in range, no
  piece holds a line feed or collides with the placeholder, no line after the first
  holds the timestamp pattern, and the last line does not end in a backslash.
\<close>

definition record_ok :: "string \<Rightarrow> written_record \<Rightarrow> bool" where
  "record_ok tok r \<longleftrightarrow>
     list_all is_digit (rec_time r) \<and> 10 \<le> length (rec_time r) \<and>
     digits_val (rec_time r) < 2 ^ 63 \<and>
     list_all is_digit (rec_duration r) \<and> rec_duration r \<noteq> [] \<and>
     digits_val (rec_duration r) < 2 ^ (IntSize - 1) \<and>
     rec_pieces r \<noteq> [] \<and>
     (\<forall>p \<in> set (rec_pieces r). newline \<notin> set p \<and> \<not> sublist tok (p @ butlast tok)) \<and>
     (\<forall>l \<in> set (tl (cont_lines (rec_pieces r))). \<not> timestampRegex l) \<and>
     \<not> HasSuffix_backslash (last (rec_pieces r))"

definition physical_lines :: "written_record \<Rightarrow> string list" where
  "physical_lines r =
     cont_lines ((record_header r @ hd (rec_pieces r)) # tl (rec_pieces r))"


section \<open>Reading the output back\<close>

text \<open>
  \<open>split_token tok s\<close> cuts \<open>s\<close> at the occurrences of \<open>tok\<close> that
  \<open>strings.ReplaceAll\<close> replaces (from the left, without overlap): the pieces between
  the placeholders of a command.
\<close>

fun split_token :: "string \<Rightarrow> string \<Rightarrow> string list" where
  "split_token tok [] = [[]]"
| "split_token tok (c # cs) =
     (if tok \<noteq> [] \<and> prefix tok (c # cs)
      then [] # split_token tok (drop (length tok - 1) cs)
      else (case split_token tok cs of
              [] \<Rightarrow> [[c]]
            | p # ps \<Rightarrow> (c # p) # ps))"

text \<open>
  An entry of the merge table as the emitter writes it with the placeholder \<open>tok\<close>,
  and the entry a later run, with the placeholder \<open>tok2\<close>, holds for it.
\<close>

definition written_form :: "string \<Rightarrow> HistoryEntry \<Rightarrow> written_record" where
  "written_form tok e =
     \<lparr>rec_time = format_d (Time e), rec_duration = format_d (Duration e),
      rec_pieces = split_token tok (Command e)\<rparr>"

definition rerun_entry :: "string \<Rightarrow> string \<Rightarrow> HistoryEntry \<Rightarrow> HistoryEntry" where
  "rerun_entry tok1 tok2 e =
     \<lparr>Command = join_with tok2 (split_token tok1 (Command e)),
      Time = Time e, Duration = Duration e\<rparr>"

text \<open>
  The entries for which a later run reads back what the emitter wrote: a timestamp of
  exactly ten digits, a duration in the range of \<open>int\<close>, no line feed in the
  command, no collision of its pieces with the placeholder of the later run, no
  timestamp pattern on a continuation line, no backslash at the end of the last line.
\<close>

definition rerun_safe :: "string \<Rightarrow> string \<Rightarrow> HistoryEntry \<Rightarrow> bool" where
  "rerun_safe tok1 tok2 e \<longleftrightarrow>
     1000000000 \<le> Time e \<and> Time e \<le> 9999999999 \<and>
     0 \<le> Duration e \<and> Duration e < 2 ^ (IntSize - 1) \<and>
     (\<forall>p \<in> set (split_token tok1 (Command e)).
        newline \<notin> set p \<and> \<not> sublist tok2 (p @ butlast tok2)) \<and>
     (\<forall>l \<in> set (tl (cont_lines (split_token tok1 (Command e)))). \<not> timestampRegex l) \<and>
     \<not> HasSuffix_backslash (last (split_token tok1 (Command e)))"

text \<open>Every key of the table is the command of the entry it maps to.\<close>

definition keyed :: "CommandMap \<Rightarrow> bool" where
  "keyed m \<longleftrightarrow> (\<forall>k e. m k = Some e \<longrightarrow> Command e = k)"

section \<open>Properties of the deduplicator\<close>

lemma upsert_other: "k \<noteq> Command e \<Longrightarrow> upsert m e k = m k"
  by (simp add: upsert_def split: option.splits)

lemma upsert_same:
  "upsert m e (Command e) =
     (case m (Command e) of None \<Rightarrow> Some e
      | Some x \<Rightarrow> if Time x < Time e then Some e else Some x)"
  by (simp add: upsert_def split: option.splits)

lemma dedup_snoc: "dedup m (es @ [e]) = upsert (dedup m es) e"
  by (simp add: dedup_def)

lemma dedup_None_iff: "dedup Map.empty es k = None \<longleftrightarrow> (\<forall>e\<in>set es. Command e \<noteq> k)"
proof (induction es rule: rev_induct)
  case Nil
  show ?case by (simp add: dedup_def)
next
  case (snoc x xs)
  show ?case
  proof (cases "Command x = k")
    case True
    then have "dedup Map.empty (xs @ [x]) k \<noteq> None"
      using upsert_same [of "dedup Map.empty xs" x]
      by (auto simp: dedup_snoc split: option.splits if_splits)
    with True show ?thesis by auto
  next
    case False
    then show ?thesis using snoc by (simp add: dedup_snoc upsert_other)
  qed
qed

lemma dedup_Some_first_latest:
  "dedup Map.empty es k = Some e \<Longrightarrow> \<exists>i. first_latest_at es k i \<and> es ! i = e"
proof (induction es arbitrary: e rule: rev_induct)
  case Nil
  then show ?case by (simp add: dedup_def)
next
  case (snoc x xs)
  show ?case
  proof (cases "Command x = k")
    case False
    then have "dedup Map.empty xs k = Some e"
      using snoc.prems by (simp add: dedup_snoc upsert_other)
    then obtain i where i: "first_latest_at xs k i" "xs ! i = e" using snoc.IH by blast
    have "first_latest_at (xs @ [x]) k i"
      using i(1) False unfolding first_latest_at_def
      by (auto simp: nth_append less_Suc_eq)
    moreover have "(xs @ [x]) ! i = e" using i unfolding first_latest_at_def by (simp add: nth_append)
    ultimately show ?thesis by blast
  next
    case True
    show ?thesis
    proof (cases "dedup Map.empty xs k")
      case None
      then have e: "e = x" using snoc.prems True upsert_same [of "dedup Map.empty xs" x]
        by (simp add: dedup_snoc)
      from None have "\<forall>y\<in>set xs. Command y \<noteq> k" by (simp add: dedup_None_iff)
      then have "first_latest_at (xs @ [x]) k (length xs)"
        using True unfolding first_latest_at_def by (auto simp: nth_append less_Suc_eq)
      then show ?thesis using e by auto
    next
      case (Some y)
      then obtain i where i: "first_latest_at xs k i" "xs ! i = y" using snoc.IH by blast
      show ?thesis
      proof (cases "Time y < Time x")
        case lt: True
        then have e: "e = x" using snoc.prems True Some upsert_same [of "dedup Map.empty xs" x]
          by (simp add: dedup_snoc)
        have "\<forall>j<length xs. Command (xs ! j) = k \<longrightarrow> Time (xs ! j) \<le> Time y"
          using i unfolding first_latest_at_def by (metis less_imp_le linorder_neqE_nat order_refl)
        then have "first_latest_at (xs @ [x]) k (length xs)"
          using True lt unfolding first_latest_at_def by (auto simp: nth_append less_Suc_eq)
        then show ?thesis using e by auto
      next
        case ge: False
        then have e: "e = y" using snoc.prems True Some upsert_same [of "dedup Map.empty xs" x]
          by (simp add: dedup_snoc)
        have "first_latest_at (xs @ [x]) k i"
          using i True ge unfolding first_latest_at_def by (auto simp: nth_append less_Suc_eq)
        moreover have "(xs @ [x]) ! i = e" using i e unfolding first_latest_at_def by (simp add: nth_append)
        ultimately show ?thesis by blast
      qed
    qed
  qed
qed

text \<open>
  Claim C1. After any sequence of parsed records, and after every prefix of it (every
  intermediate point), the merge table holds a record for a command exactly when one was
  fed, and the record it holds is the first one among those with the greatest
  \<open>executed_at\<close>. One step replaces the stored record if and only if the new timestamp
  is strictly greater (so the first record met stays on a tie), and leaves every other
  key as it was.
\<close>

theorem dedup_keeps_first_latest:
  "(dedup Map.empty (take n es) k = None \<longleftrightarrow> (\<forall>e\<in>set (take n es). Command e \<noteq> k)) \<and>
   (\<forall>e. dedup Map.empty (take n es) k = Some e \<longrightarrow>
        (\<exists>i. first_latest_at (take n es) k i \<and> take n es ! i = e)) \<and>
   (\<forall>x. m (Command e') = Some x \<longrightarrow>
        upsert m e' (Command e') = Some (if Time x < Time e' then e' else x)) \<and>
   (m (Command e') = None \<longrightarrow> upsert m e' (Command e') = Some e') \<and>
   (\<forall>k'. k' \<noteq> Command e' \<longrightarrow> upsert m e' k' = m k')"
proof -
  have "\<forall>x. m (Command e') = Some x \<longrightarrow>
        upsert m e' (Command e') = Some (if Time x < Time e' then e' else x)"
    by (simp add: upsert_same)
  moreover have "m (Command e') = None \<longrightarrow> upsert m e' (Command e') = Some e'"
    by (simp add: upsert_same)
  moreover have "\<forall>k'. k' \<noteq> Command e' \<longrightarrow> upsert m e' k' = m k'"
    by (simp add: upsert_other)
  ultimately show ?thesis
    using dedup_None_iff [of "take n es" k] dedup_Some_first_latest [of "take n es" k]
    by blast
qed

theorem dedup_keeps_first_latest_witness:
  "dedup Map.empty
     (take 3 [\<lparr>Command = ''ls'', Time = 1000000005, Duration = 1\<rparr>,
              \<lparr>Command = ''ls'', Time = 1000000005, Duration = 2\<rparr>,
              \<lparr>Command = ''pwd'', Time = 1000000007, Duration = 0\<rparr>,
              \<lparr>Command = ''ls'', Time = 1000000009, Duration = 3\<rparr>]) ''ls''
     = Some \<lparr>Command = ''ls'', Time = 1000000005, Duration = 1\<rparr> \<and>
   (\<exists>i. first_latest_at
      (take 3 [\<lparr>Command = ''ls'', Time = 1000000005, Duration = 1\<rparr>,
              \<lparr>Command = ''ls'', Time = 1000000005, Duration = 2\<rparr>,
              \<lparr>Command = ''pwd'', Time = 1000000007, Duration = 0\<rparr>,
              \<lparr>Command = ''ls'', Time = 1000000009, Duration = 3\<rparr>]) ''ls'' i \<and>
      take 3 [\<lparr>Command = ''ls'', Time = 1000000005, Duration = 1\<rparr>,
              \<lparr>Command = ''ls'', Time = 1000000005, Duration = 2\<rparr>,
              \<lparr>Command = ''pwd'', Time = 1000000007, Duration = 0\<rparr>,
              \<lparr>Command = ''ls'', Time = 1000000009, Duration = 3\<rparr>] ! i
        = \<lparr>Command = ''ls'', Time = 1000000005, Duration = 1\<rparr>) \<and>
   upsert (Map.empty(''ls'' \<mapsto> \<lparr>Command = ''ls'', Time = 1000000005, Duration = 1\<rparr>))
      \<lparr>Command = ''ls'', Time = 1000000009, Duration = 3\<rparr> ''ls''
     = Some \<lparr>Command = ''ls'', Time = 1000000009, Duration = 3\<rparr>"
proof -
  let ?a = "\<lparr>Command = ''ls'', Time = 1000000005, Duration = 1\<rparr>"
  let ?d = "\<lparr>Command = ''ls'', Time = 1000000009, Duration = 3\<rparr>"
  let ?es = "[?a, \<lparr>Command = ''ls'', Time = 1000000005, Duration = 2\<rparr>,
              \<lparr>Command = ''pwd'', Time = 1000000007, Duration = 0\<rparr>, ?d]"
  have v: "dedup Map.empty (take 3 ?es) ''ls'' = Some ?a"
    by (simp add: dedup_def upsert_def)
  note t = dedup_keeps_first_latest [of 3 ?es "''ls''" "Map.empty(''ls'' \<mapsto> ?a)" ?d]
  from t v have "\<exists>i. first_latest_at (take 3 ?es) ''ls'' i \<and> take 3 ?es ! i = ?a"
    by blast
  moreover from t have "upsert (Map.empty(''ls'' \<mapsto> ?a)) ?d ''ls'' = Some ?d"
    by simp
  ultimately show ?thesis using v by blast
qed

section \<open>Evaluation of the model on concrete inputs\<close>

lemma char_eq_char_of_iff: "c = char_of n \<longleftrightarrow> take_bit 8 n = of_char c"
  using char_of_eq_iff [of n c] by auto

lemmas string_defs =
  backslash_def newline_def is_digit_def is_space_def is_trim_space_def TrimSpace_def
  SplitN2_def HasSuffix_backslash_def TrimSuffix_backslash_def digit_val_def digits_val_def
  ParseInt_def IntSize_def Atoi_def format_d_def pad_left_def dec.simps char_of_eq_iff char_eq_char_of_iff

lemmas utf8_defs =
  RuneError_def first_size_def accept_lo_def accept_hi_def DecodeRune_def
  DecodeRuneInString_def EncodeRune_def WriteRune_def ValidString_def invalidUTF8_def

lemmas pipeline_defs =
  validLineRegex_def parseHistoryLine_def timestamp_here_def write_line_def
  replaceMultilineCommands_def dropCR_def ScanLines_def MaxScanTokenSize_def
  readFileContent_def processHistoryFile_def upsert_def multilineCommand_at_def
  ReplaceAll_def format_entry_def

section \<open>Properties of the sorter and emitter\<close>

lemma sort_Slice_Time_sorted:
  "sort_Slice_Time xs ys \<Longrightarrow> sorted (map Time ys)"
  by (simp add: sort_Slice_Time_def sorted_map not_less)

lemma sort_Slice_Time_exists: "\<exists>ys. sort_Slice_Time xs ys"
proof -
  have "sort_Slice_Time xs (sort_key Time xs)"
    using sorted_sort_key [of Time xs]
    by (simp add: sort_Slice_Time_def sorted_map not_less)
  then show ?thesis ..
qed

lemma range_order_exists: "finite (dom m) \<Longrightarrow> \<exists>ks. range_order m ks"
  unfolding range_order_def using finite_distinct_list [of "dom m"] by blast

lemma emitted_entries_exists: "finite (dom m) \<Longrightarrow> \<exists>es. emitted_entries m es"
  unfolding emitted_entries_def using range_order_exists sort_Slice_Time_exists by blast

lemma emitted_entries_set: "emitted_entries m es \<Longrightarrow> set es = ran m"
proof -
  assume "emitted_entries m es"
  then obtain ks where ks: "distinct ks" "set ks = dom m"
    and es: "mset es = mset (map (\<lambda>k. the (m k)) ks)"
    unfolding emitted_entries_def range_order_def sort_Slice_Time_def by blast
  from es have "set es = set (map (\<lambda>k. the (m k)) ks)" by (rule mset_eq_setD)
  also have "\<dots> = (\<lambda>k. the (m k)) ` dom m" using ks by simp
  also have "\<dots> = ran m" by (force simp: ran_def dom_def image_iff)
  finally show ?thesis .
qed

lemma emitted_entries_mset:
  assumes "emitted_entries m es1" "emitted_entries m es2"
  shows "mset es1 = mset es2"
proof -
  from assms obtain ks1 ks2 where
    k1: "distinct ks1" "set ks1 = dom m" "mset es1 = mset (map (\<lambda>k. the (m k)) ks1)" and
    k2: "distinct ks2" "set ks2 = dom m" "mset es2 = mset (map (\<lambda>k. the (m k)) ks2)"
    unfolding emitted_entries_def range_order_def sort_Slice_Time_def by blast
  have "mset ks1 = mset ks2"
    using k1(1,2) k2(1,2) set_eq_iff_mset_eq_distinct [of ks1 ks2] by simp
  then have "mset (map (\<lambda>k. the (m k)) ks1) = mset (map (\<lambda>k. the (m k)) ks2)"
    by simp
  then show ?thesis using k1(3) k2(3) by simp
qed

lemma emitted_entries_unique:
  assumes inj: "inj_on (\<lambda>k. Time (the (m k))) (dom m)"
    and e1: "emitted_entries m es1" and e2: "emitted_entries m es2"
  shows "es1 = es2"
proof -
  from e1 obtain ks where ks: "distinct ks" "set ks = dom m"
    "mset es1 = mset (map (\<lambda>k. the (m k)) ks)"
    unfolding emitted_entries_def range_order_def sort_Slice_Time_def by blast
  have ms: "mset es1 = mset es2" using e1 e2 by (rule emitted_entries_mset)
  have "distinct (map (\<lambda>k. Time (the (m k))) ks)"
    using ks inj by (simp add: distinct_map)
  moreover have "mset (map Time es1) = mset (map (\<lambda>k. Time (the (m k))) ks)"
  proof -
    have "image_mset Time (mset es1) = image_mset Time (mset (map (\<lambda>k. the (m k)) ks))"
      by (simp only: ks(3))
    then show ?thesis by (simp add: image_mset.compositionality comp_def)
  qed
  ultimately have d1: "distinct (map Time es1)"
    using mset_eq_imp_distinct_iff by blast
  have mt: "mset (map Time es1) = mset (map Time es2)"
  proof -
    have "image_mset Time (mset es1) = image_mset Time (mset es2)" by (simp only: ms)
    then show ?thesis by simp
  qed
  then have d2: "distinct (map Time es2)" using d1 mset_eq_imp_distinct_iff by blast
  have s1: "sorted (map Time es1)" and s2: "sorted (map Time es2)"
    using e1 e2 sort_Slice_Time_sorted unfolding emitted_entries_def by blast+
  have "set (map Time es1) = set (map Time es2)" using mt by (rule mset_eq_setD)
  then have eq: "map Time es1 = map Time es2"
    using s1 s2 d1 d2 by (rule_tac sorted_distinct_set_unique)
  have "set es1 = set es2" using ms by (rule mset_eq_setD)
  moreover have "inj_on Time (set es1)" using d1 by (simp add: distinct_map)
  ultimately have "inj_on Time (set es1 \<union> set es2)" by simp
  then show ?thesis using eq inj_on_map_eq_map [of Time es1 es2] by simp
qed

lemma outputs_sorted:
  assumes "outputMergedCommands commands tok out"
  shows "\<exists>es. out = concat (map (format_entry tok) es) \<and> set es = ran commands \<and>
           sorted (map Time es)"
proof -
  from assms obtain es where es: "emitted_entries commands es"
    and out: "out = concat (map (format_entry tok) es)"
    unfolding outputMergedCommands_def by blast
  from es have "sorted (map Time es)"
    unfolding emitted_entries_def using sort_Slice_Time_sorted by blast
  with es out show ?thesis using emitted_entries_set by blast
qed

text \<open>
  Claim C5. Whatever the files were, the records are printed in ascending order of
  \<open>executed_at\<close>: every text a run may print, and every text the emitter may write for
  a merge table, is the concatenation of formatted entries (the values of the table)
  taken in an order in which the timestamps never decrease. The emitter does print such
  a text for every (finite) merge table.
\<close>

theorem output_sorted_by_Time:
  "(\<forall>out. main_output files tok out \<longrightarrow>
      (\<exists>es. out = concat (map (format_entry tok) es) \<and> sorted (map Time es))) \<and>
   (finite (dom commands) \<longrightarrow> (\<exists>out. outputMergedCommands commands tok out)) \<and>
   (\<forall>out. outputMergedCommands commands tok out \<longrightarrow>
      (\<exists>es. out = concat (map (format_entry tok) es) \<and> set es = ran commands \<and>
            sorted (map Time es)))"
proof -
  have "\<exists>es. out = concat (map (format_entry tok) es) \<and> sorted (map Time es)"
    if "main_output files tok out" for out
  proof (cases "process_files files tok Map.empty")
    case (Inl err)
    then show ?thesis using that by (simp add: main_output_def)
  next
    case (Inr m)
    then have "outputMergedCommands m tok out" using that by (simp add: main_output_def)
    then show ?thesis using outputs_sorted by blast
  qed
  moreover have "finite (dom commands) \<longrightarrow> (\<exists>out. outputMergedCommands commands tok out)"
    unfolding outputMergedCommands_def using emitted_entries_exists by blast
  moreover have "\<forall>out. outputMergedCommands commands tok out \<longrightarrow>
      (\<exists>es. out = concat (map (format_entry tok) es) \<and> set es = ran commands \<and>
            sorted (map Time es))"
    using outputs_sorted by blast
  ultimately show ?thesis by blast
qed

theorem output_sorted_by_Time_witness:
  "outputMergedCommands
     (Map.empty(''pwd'' \<mapsto> \<lparr>Command = ''pwd'', Time = 1000000010, Duration = 0\<rparr>,
                ''ls'' \<mapsto> \<lparr>Command = ''ls'', Time = 1000000000, Duration = 2\<rparr>))
     (multilineCommand_at 1700000000)
     ('': 1000000000:2;ls'' @ [newline] @ '': 1000000010:0;pwd'' @ [newline]) \<and>
   (\<exists>es. '': 1000000000:2;ls'' @ [newline] @ '': 1000000010:0;pwd'' @ [newline]
           = concat (map (format_entry (multilineCommand_at 1700000000)) es) \<and>
         set es = ran (Map.empty(''pwd'' \<mapsto> \<lparr>Command = ''pwd'', Time = 1000000010, Duration = 0\<rparr>,
                ''ls'' \<mapsto> \<lparr>Command = ''ls'', Time = 1000000000, Duration = 2\<rparr>)) \<and>
         sorted (map Time es))"
proof -
  let ?p = "\<lparr>Command = ''pwd'', Time = 1000000010, Duration = 0\<rparr>"
  let ?l = "\<lparr>Command = ''ls'', Time = 1000000000, Duration = 2\<rparr>"
  let ?m = "Map.empty(''pwd'' \<mapsto> ?p, ''ls'' \<mapsto> ?l)"
  let ?out = "'': 1000000000:2;ls'' @ [newline] @ '': 1000000010:0;pwd'' @ [newline]"
  have r: "range_order ?m [''pwd'', ''ls'']"
    by (auto simp: range_order_def)
  have s: "sort_Slice_Time (map (\<lambda>k. the (?m k)) [''pwd'', ''ls'']) [?l, ?p]"
    by (simp add: sort_Slice_Time_def)
  have f: "?out = concat (map (format_entry (multilineCommand_at 1700000000)) [?l, ?p])"
    by (simp add: pipeline_defs string_defs)
  have o: "outputMergedCommands ?m (multilineCommand_at 1700000000) ?out"
    unfolding outputMergedCommands_def emitted_entries_def using r s f by blast
  from o output_sorted_by_Time [of "[]" "multilineCommand_at 1700000000" ?m]
  show ?thesis by blast
qed


lemma main_output_iff:
  "process_files files tok Map.empty = Inr commands \<Longrightarrow>
   main_output files tok out \<longleftrightarrow> outputMergedCommands commands tok out"
  by (simp add: main_output_def)

text \<open>
  Claim C9 says that two runs on the same files with the same placeholder print the
  same bytes, the order of distinct commands with one \<open>executed_at\<close> included. The
  entries are collected by a \<open>range\<close> over a Go map and sorted by \<open>sort.Slice\<close>,
  which compares the timestamps only: for two commands run in the same second, both
  orders are outputs of the same run.
\<close>

theorem output_order_of_ties_counterexample:
  "main_output [Some ('': 1000000000:0;a'' @ [newline] @ '': 1000000000:0;b'' @ [newline])]
     (multilineCommand_at 1700000000)
     ('': 1000000000:0;a'' @ [newline] @ '': 1000000000:0;b'' @ [newline]) \<and>
   main_output [Some ('': 1000000000:0;a'' @ [newline] @ '': 1000000000:0;b'' @ [newline])]
     (multilineCommand_at 1700000000)
     ('': 1000000000:0;b'' @ [newline] @ '': 1000000000:0;a'' @ [newline]) \<and>
   '': 1000000000:0;a'' @ [newline] @ '': 1000000000:0;b'' @ [newline]
     \<noteq> '': 1000000000:0;b'' @ [newline] @ '': 1000000000:0;a'' @ [newline]"
proof -
  let ?a = "\<lparr>Command = ''a'', Time = 1000000000, Duration = 0\<rparr>"
  let ?b = "\<lparr>Command = ''b'', Time = 1000000000, Duration = 0\<rparr>"
  let ?m = "Map.empty(''a'' \<mapsto> ?a, ''b'' \<mapsto> ?b)"
  let ?tok = "multilineCommand_at 1700000000"
  let ?data = "'': 1000000000:0;a'' @ [newline] @ '': 1000000000:0;b'' @ [newline]"
  have p: "process_files [Some ?data] ?tok Map.empty = Inr ?m"
    by (simp add: pipeline_defs string_defs utf8_defs)
  have r: "range_order ?m [''a'', ''b'']"
    by (auto simp: range_order_def)
  have s1: "sort_Slice_Time (map (\<lambda>k. the (?m k)) [''a'', ''b'']) [?a, ?b]"
    by (simp add: sort_Slice_Time_def)
  have s2: "sort_Slice_Time (map (\<lambda>k. the (?m k)) [''a'', ''b'']) [?b, ?a]"
    by (simp add: sort_Slice_Time_def)
  have f1: "?data = concat (map (format_entry ?tok) [?a, ?b])"
    by (simp add: pipeline_defs string_defs)
  have f2: "'': 1000000000:0;b'' @ [newline] @ '': 1000000000:0;a'' @ [newline]
      = concat (map (format_entry ?tok) [?b, ?a])"
    by (simp add: pipeline_defs string_defs)
  have o1: "outputMergedCommands ?m ?tok ?data"
    unfolding outputMergedCommands_def emitted_entries_def using r s1 f1 by blast
  have o2: "outputMergedCommands ?m ?tok
      ('': 1000000000:0;b'' @ [newline] @ '': 1000000000:0;a'' @ [newline])"
    unfolding outputMergedCommands_def emitted_entries_def using r s2 f2 by blast
  have d: "?data \<noteq> '': 1000000000:0;b'' @ [newline] @ '': 1000000000:0;a'' @ [newline]"
    by simp
  show ?thesis using o1 o2 d main_output_iff [OF p] by blast
qed

text \<open>
  Claim C9, amended. Two runs on the same files with the same placeholder print the
  same records (the same multiset of entries), each in ascending order of
  \<open>executed_at\<close>; when no two retained records share an \<open>executed_at\<close>, the two
  outputs are the same byte sequence. The relative order of distinct commands with one
  \<open>executed_at\<close> is not fixed.
\<close>

theorem output_determined_up_to_ties:
  assumes "process_files files tok Map.empty = Inr commands"
    and "main_output files tok out1" and "main_output files tok out2"
  shows "(\<exists>es1 es2. out1 = concat (map (format_entry tok) es1) \<and>
            out2 = concat (map (format_entry tok) es2) \<and> mset es1 = mset es2 \<and>
            sorted (map Time es1) \<and> sorted (map Time es2)) \<and>
         (inj_on (\<lambda>k. Time (the (commands k))) (dom commands) \<longrightarrow> out1 = out2)"
proof -
  from assms obtain es1 es2 where
    e1: "emitted_entries commands es1" "out1 = concat (map (format_entry tok) es1)" and
    e2: "emitted_entries commands es2" "out2 = concat (map (format_entry tok) es2)"
    unfolding main_output_iff [OF assms(1)] outputMergedCommands_def by blast
  have "mset es1 = mset es2" using e1(1) e2(1) by (rule emitted_entries_mset)
  moreover have "sorted (map Time es1)" "sorted (map Time es2)"
    using e1(1) e2(1) sort_Slice_Time_sorted unfolding emitted_entries_def by blast+
  moreover have "inj_on (\<lambda>k. Time (the (commands k))) (dom commands) \<longrightarrow> out1 = out2"
    using emitted_entries_unique [OF _ e1(1) e2(1)] e1(2) e2(2) by blast
  ultimately show ?thesis using e1(2) e2(2) by blast
qed

theorem output_determined_up_to_ties_witness:
  "process_files [Some ('': 1000000005:0;b'' @ [newline] @ '': 1000000000:0;a'' @ [newline])]
     (multilineCommand_at 1700000000) Map.empty
     = Inr (Map.empty(''b'' \<mapsto> \<lparr>Command = ''b'', Time = 1000000005, Duration = 0\<rparr>,
                      ''a'' \<mapsto> \<lparr>Command = ''a'', Time = 1000000000, Duration = 0\<rparr>)) \<and>
   main_output [Some ('': 1000000005:0;b'' @ [newline] @ '': 1000000000:0;a'' @ [newline])]
     (multilineCommand_at 1700000000)
     ('': 1000000000:0;a'' @ [newline] @ '': 1000000005:0;b'' @ [newline]) \<and>
   inj_on (\<lambda>k. Time (the ((Map.empty(''b'' \<mapsto> \<lparr>Command = ''b'', Time = 1000000005, Duration = 0\<rparr>,
                      ''a'' \<mapsto> \<lparr>Command = ''a'', Time = 1000000000, Duration = 0\<rparr>)) k)))
      (dom (Map.empty(''b'' \<mapsto> \<lparr>Command = ''b'', Time = 1000000005, Duration = 0\<rparr>,
                      ''a'' \<mapsto> \<lparr>Command = ''a'', Time = 1000000000, Duration = 0\<rparr>))) \<and>
   (\<exists>es1 es2. '': 1000000000:0;a'' @ [newline] @ '': 1000000005:0;b'' @ [newline]
                 = concat (map (format_entry (multilineCommand_at 1700000000)) es1) \<and>
              '': 1000000000:0;a'' @ [newline] @ '': 1000000005:0;b'' @ [newline]
                 = concat (map (format_entry (multilineCommand_at 1700000000)) es2) \<and>
              mset es1 = mset es2 \<and> sorted (map Time es1) \<and> sorted (map Time es2))"
proof -
  let ?a = "\<lparr>Command = ''a'', Time = 1000000000, Duration = 0\<rparr>"
  let ?b = "\<lparr>Command = ''b'', Time = 1000000005, Duration = 0\<rparr>"
  let ?m = "Map.empty(''b'' \<mapsto> ?b, ''a'' \<mapsto> ?a)"
  let ?tok = "multilineCommand_at 1700000000"
  let ?data = "'': 1000000005:0;b'' @ [newline] @ '': 1000000000:0;a'' @ [newline]"
  let ?out = "'': 1000000000:0;a'' @ [newline] @ '': 1000000005:0;b'' @ [newline]"
  have p: "process_files [Some ?data] ?tok Map.empty = Inr ?m"
    by (simp add: pipeline_defs string_defs utf8_defs)
  have r: "range_order ?m [''b'', ''a'']"
    by (auto simp: range_order_def)
  have s: "sort_Slice_Time (map (\<lambda>k. the (?m k)) [''b'', ''a'']) [?a, ?b]"
    by (simp add: sort_Slice_Time_def)
  have f: "?out = concat (map (format_entry ?tok) [?a, ?b])"
    by (simp add: pipeline_defs string_defs)
  have "outputMergedCommands ?m ?tok ?out"
    unfolding outputMergedCommands_def emitted_entries_def using r s f by blast
  then have o: "main_output [Some ?data] ?tok ?out"
    using main_output_iff [OF p] by blast
  have i: "inj_on (\<lambda>k. Time (the (?m k))) (dom ?m)"
    by simp
  from output_determined_up_to_ties [OF p o o] p o i show ?thesis by blast
qed

text \<open>
  Claim C3 at a timestamp of eleven digits. The validator accepts the line
  \<open>: 10000000000:0;ls\<close> and the parser reads it, but the verb \<open>%11d\<close> pads to a width
  of eleven only: the record is printed as \<open>:10000000000:0;ls\<close>, with no space after
  the field marker, a line the validator of the program itself rejects.
\<close>

theorem emitter_11_digit_timestamp:
  "validLineRegex '': 10000000000:0;ls'' \<and>
   parseHistoryLine '': 10000000000:0;ls''
     = Inr \<lparr>Command = ''ls'', Time = 10000000000, Duration = 0\<rparr> \<and>
   format_entry (multilineCommand_at 1700000000)
       \<lparr>Command = ''ls'', Time = 10000000000, Duration = 0\<rparr>
     = '':10000000000:0;ls'' @ [newline] \<and>
   \<not> validLineRegex '':10000000000:0;ls''"
  by (simp add: pipeline_defs string_defs)

theorem emitter_11_digit_timestamp_witness:
  "format_entry (multilineCommand_at 1700000000)
       \<lparr>Command = ''ls'', Time = 10000000000, Duration = 0\<rparr>
     \<noteq> '': 10000000000:0;ls'' @ [newline]"
  using emitter_11_digit_timestamp by simp


section \<open>Properties of the continuation normalizer\<close>

lemma Split_not_Nil: "Split c s \<noteq> []"
  by (induction s) (auto split: list.splits)

lemma Split_join:
  "concat (map (\<lambda>l. l @ [c]) (butlast (Split c s))) @ last (Split c s) = s"
proof (induction s)
  case Nil
  show ?case by simp
next
  case (Cons a s)
  then show ?case using Split_not_Nil [of c s]
    by (cases "Split c s") auto
qed

lemma Split_sublist: "l \<in> set (Split c s) \<Longrightarrow> sublist l s"
proof (induction s arbitrary: l)
  case Nil
  then show ?case by simp
next
  case (Cons a s)
  show ?case
  proof (cases "a = c")
    case True
    with Cons.prems have "l = [] \<or> l \<in> set (Split c s)" by auto
    then show ?thesis using Cons.IH by (auto simp: sublist_Cons_right)
  next
    case False
    obtain x xs where sp: "Split c s = x # xs"
      using Split_not_Nil [of c s] by (cases "Split c s") auto
    with False Cons.prems have "l = a # x \<or> l \<in> set xs" by auto
    then show ?thesis
    proof
      assume l: "l = a # x"
      have "x \<in> set (Split c s)" using sp by simp
      moreover have "prefix x s"
      proof -
        have "concat (map (\<lambda>l. l @ [c]) (butlast (Split c s))) @ last (Split c s) = s"
          by (rule Split_join)
        then show ?thesis using sp by (cases xs) (auto simp: prefix_def)
      qed
      ultimately show ?thesis using l by (simp add: sublist_Cons_right)
    next
      assume "l \<in> set xs"
      then have "l \<in> set (Split c s)" using sp by simp
      then show ?thesis using Cons.IH by (simp add: sublist_Cons_right)
    qed
  qed
qed

lemma replace_loop_pieces:
  "replace_loop ls tok =
     concat (map (\<lambda>i. write_line (ls ! i) (following_line ls i) tok) [0..<length ls])"
proof (induction ls tok rule: replace_loop.induct)
  case (1 tok)
  show ?case by simp
next
  case (2 line tok)
  show ?case by (simp add: following_line_def)
next
  case (3 line nextLine rest tok)
  let ?g = "\<lambda>ls i. write_line (ls ! i) (following_line ls i) tok"
  have z: "?g (line # nextLine # rest) 0 = write_line line (Some nextLine) tok"
    by (simp add: following_line_def)
  have sh: "\<And>i. ?g (line # nextLine # rest) (Suc i) = ?g (nextLine # rest) i"
    by (simp add: following_line_def)
  have "map (?g (line # nextLine # rest)) [0..<Suc (length (nextLine # rest))]
        = ?g (line # nextLine # rest) 0
          # map (\<lambda>i. ?g (line # nextLine # rest) (Suc i)) [0..<length (nextLine # rest)]"
    by (rule map_upt_Suc)
  then have "map (?g (line # nextLine # rest)) [0..<length (line # nextLine # rest)]
        = write_line line (Some nextLine) tok
          # map (?g (nextLine # rest)) [0..<length (nextLine # rest)]"
    by (simp only: z sh length_Cons)
  then show ?case using 3 by (simp only: replace_loop.simps concat.simps list.map)
qed

lemma replace_loop_plain:
  "ls \<noteq> [] \<Longrightarrow> \<forall>l\<in>set (butlast ls). \<not> HasSuffix_backslash l \<Longrightarrow>
   replace_loop ls tok = concat (map (\<lambda>l. l @ [newline]) (butlast ls)) @ last ls"
  by (induction ls tok rule: replace_loop.induct) (auto simp: write_line_def)

lemma normalizer_identity:
  assumes "\<forall>l\<in>set (butlast (Split newline content)). \<not> HasSuffix_backslash l"
  shows "replaceMultilineCommands content tok = content"
  unfolding replaceMultilineCommands_def
  using replace_loop_plain [OF Split_not_Nil assms] Split_join [of newline content] by simp

lemma replace_all_absent: "\<not> sublist old s \<Longrightarrow> replace_all s old new = s"
  by (induction s) (auto simp: sublist_Cons_right)

lemma ReplaceAll_absent: "\<not> sublist old s \<Longrightarrow> ReplaceAll s old new = s"
  by (auto simp: ReplaceAll_def replace_all_absent)

lemma parseHistoryLine_Command:
  "parseHistoryLine line = Inr e \<Longrightarrow>
   CHR '';'' \<in> set line \<and> Command e = tl (dropWhile (\<lambda>c. c \<noteq> CHR '';'') line)"
  unfolding parseHistoryLine_def SplitN2_def
  by (auto split: if_splits list.splits option.splits)

lemma parseHistoryLine_suffix:
  assumes "parseHistoryLine line = Inr e" shows "suffix (Command e) line"
proof -
  have "suffix (tl (dropWhile (\<lambda>c. c \<noteq> CHR '';'') line)) (dropWhile (\<lambda>c. c \<noteq> CHR '';'') line)"
    by (simp add: suffix_tl)
  then have "suffix (tl (dropWhile (\<lambda>c. c \<noteq> CHR '';'') line)) line"
    using suffix_dropWhile suffix_order.trans by blast
  then show ?thesis using parseHistoryLine_Command [OF assms] by simp
qed

lemma sublist_trans: "sublist a b \<Longrightarrow> sublist b c \<Longrightarrow> sublist a c"
proof -
  assume "sublist a b" "sublist b c"
  then obtain p1 s1 p2 s2 where "b = p1 @ a @ s1" "c = p2 @ b @ s2"
    unfolding sublist_def by blast
  then have "c = (p2 @ p1) @ a @ (s1 @ s2)" by simp
  then show ?thesis unfolding sublist_def by blast
qed

lemma timestamp_here_matches: "timestamp_here s \<Longrightarrow> timestampRegex s"
  by (cases s) (auto simp: timestamp_here_def)


text \<open>
  Claim C2 says that a line ending in a backslash is joined to the next one if and only
  if that line does not start with the field marker, a timestamp of ten digits or more
  and a colon. The pattern of the code, \<open>:\s*\d{10,}\<close>, asks for no colon after the
  digits: the next line \<open>: 1234567890\<close> is not a record start in the words of the
  claim, yet the backslash before it is kept and nothing is joined.
\<close>

theorem normalizer_join_counterexample:
  "HasSuffix_backslash (''echo a'' @ [backslash]) \<and>
   \<not> spec_record_start '': 1234567890'' \<and>
   Split newline (''echo a'' @ [backslash, newline] @ '': 1234567890'')
     = [''echo a'' @ [backslash], '': 1234567890''] \<and>
   replaceMultilineCommands (''echo a'' @ [backslash, newline] @ '': 1234567890'')
       (multilineCommand_at 1700000000)
     = ''echo a'' @ [backslash, newline] @ '': 1234567890'' \<and>
   replaceMultilineCommands (''echo a'' @ [backslash, newline] @ '': 1234567890'')
       (multilineCommand_at 1700000000)
     \<noteq> ''echo a'' @ multilineCommand_at 1700000000 @ '': 1234567890''"
  by (simp add: spec_record_start_def pipeline_defs string_defs)

text \<open>
  Claim C2, amended. The normalizer writes, for each physical line in turn, what
  \<open>write_line\<close> gives for the line and the one after it. For a line that ends in a
  backslash and has a next line: when the next line holds no colon followed by optional
  white space and ten digits or more, one backslash is removed, the placeholder is
  written in its place and no line feed is written (the next line follows directly);
  when the next line starts with a colon, optional white space and ten digits or more
  (a colon after them or not), the line is written unchanged and the line feed is kept.
\<close>

theorem normalizer_join_policy:
  "replaceMultilineCommands content tok
     = concat (map (\<lambda>j. write_line (Split newline content ! j)
                          (following_line (Split newline content) j) tok)
                [0..<length (Split newline content)]) \<and>
   (Suc i < length (Split newline content) \<and> HasSuffix_backslash (Split newline content ! i) \<longrightarrow>
      (\<not> timestampRegex (Split newline content ! Suc i) \<longrightarrow>
         write_line (Split newline content ! i) (following_line (Split newline content) i) tok
           = butlast (Split newline content ! i) @ tok) \<and>
      (timestamp_here (Split newline content ! Suc i) \<longrightarrow>
         write_line (Split newline content ! i) (following_line (Split newline content) i) tok
           = Split newline content ! i @ [newline]))"
proof -
  have "replaceMultilineCommands content tok
     = concat (map (\<lambda>j. write_line (Split newline content ! j)
                          (following_line (Split newline content) j) tok)
                [0..<length (Split newline content)])"
    unfolding replaceMultilineCommands_def by (rule replace_loop_pieces)
  moreover have "Suc i < length (Split newline content) \<and>
      HasSuffix_backslash (Split newline content ! i) \<longrightarrow>
      (\<not> timestampRegex (Split newline content ! Suc i) \<longrightarrow>
         write_line (Split newline content ! i) (following_line (Split newline content) i) tok
           = butlast (Split newline content ! i) @ tok) \<and>
      (timestamp_here (Split newline content ! Suc i) \<longrightarrow>
         write_line (Split newline content ! i) (following_line (Split newline content) i) tok
           = Split newline content ! i @ [newline])"
    using timestamp_here_matches [of "Split newline content ! Suc i"]
    by (auto simp: write_line_def following_line_def TrimSuffix_backslash_def)
  ultimately show ?thesis by blast
qed

theorem normalizer_join_policy_witness:
  "Split newline (''echo a '' @ [backslash, newline] @ ''  b'' @ [newline]
        @ '': 1234567890:0;x'' @ [backslash, newline] @ '': 1234567891:0;y'')
     = [''echo a '' @ [backslash], ''  b'', '': 1234567890:0;x'' @ [backslash],
        '': 1234567891:0;y''] \<and>
   \<not> timestampRegex ''  b'' \<and> timestamp_here '': 1234567891:0;y'' \<and>
   write_line (''echo a '' @ [backslash]) (Some ''  b'') (multilineCommand_at 1700000000)
     = ''echo a '' @ multilineCommand_at 1700000000 \<and>
   write_line ('': 1234567890:0;x'' @ [backslash]) (Some '': 1234567891:0;y'')
       (multilineCommand_at 1700000000)
     = '': 1234567890:0;x'' @ [backslash, newline] \<and>
   replaceMultilineCommands (''echo a '' @ [backslash, newline] @ ''  b'' @ [newline]
        @ '': 1234567890:0;x'' @ [backslash, newline] @ '': 1234567891:0;y'')
       (multilineCommand_at 1700000000)
     = ''echo a '' @ multilineCommand_at 1700000000 @ ''  b'' @ [newline]
        @ '': 1234567890:0;x'' @ [backslash, newline] @ '': 1234567891:0;y''"
proof -
  let ?c = "''echo a '' @ [backslash, newline] @ ''  b'' @ [newline]
        @ '': 1234567890:0;x'' @ [backslash, newline] @ '': 1234567891:0;y''"
  let ?tok = "multilineCommand_at 1700000000"
  have sp: "Split newline ?c = [''echo a '' @ [backslash], ''  b'',
      '': 1234567890:0;x'' @ [backslash], '': 1234567891:0;y'']"
    by (simp add: string_defs)
  have h: "\<not> timestampRegex ''  b''" "timestamp_here '': 1234567891:0;y''"
    "HasSuffix_backslash (''echo a '' @ [backslash])"
    "HasSuffix_backslash ('': 1234567890:0;x'' @ [backslash])"
    by (simp_all add: timestamp_here_def string_defs)
  have f: "following_line (Split newline ?c) 0 = Some ''  b''"
    "following_line (Split newline ?c) 2 = Some '': 1234567891:0;y''"
    "following_line (Split newline ?c) 1 = Some ('': 1234567890:0;x'' @ [backslash])"
    "following_line (Split newline ?c) 3 = None"
    unfolding sp by (simp_all add: following_line_def)
  have w0: "write_line (''echo a '' @ [backslash]) (Some ''  b'') ?tok = ''echo a '' @ ?tok"
    using normalizer_join_policy [of ?c ?tok 0] h f unfolding sp by simp
  have w2: "write_line ('': 1234567890:0;x'' @ [backslash]) (Some '': 1234567891:0;y'') ?tok
      = '': 1234567890:0;x'' @ [backslash, newline]"
    using normalizer_join_policy [of ?c ?tok 2] h f unfolding sp by simp
  have "replaceMultilineCommands ?c ?tok
      = ''echo a '' @ ?tok @ ''  b'' @ [newline]
        @ '': 1234567890:0;x'' @ [backslash, newline] @ '': 1234567891:0;y''"
    by (simp add: pipeline_defs string_defs)
  then show ?thesis using sp h w0 w2 by blast
qed

text \<open>
  Claim C10 says that on content with no line ending in a backslash the normalizer is
  the identity and that, as a consequence, the placeholder never appears in a parsed
  command and no record gains a continuation sequence. The first half holds; the second
  fails for content that holds the text of the placeholder itself: the command is parsed
  with the placeholder in it, and the emitter prints a backslash and a line feed there.
\<close>

theorem normalizer_identity_counterexample:
  "Split newline '': 1234567890:0;echo TO_BE_REMOVED_1700000000''
     = ['': 1234567890:0;echo TO_BE_REMOVED_1700000000''] \<and>
   \<not> HasSuffix_backslash '': 1234567890:0;echo TO_BE_REMOVED_1700000000'' \<and>
   replaceMultilineCommands '': 1234567890:0;echo TO_BE_REMOVED_1700000000''
       (multilineCommand_at 1700000000)
     = '': 1234567890:0;echo TO_BE_REMOVED_1700000000'' \<and>
   validLineRegex '': 1234567890:0;echo TO_BE_REMOVED_1700000000'' \<and>
   parseHistoryLine '': 1234567890:0;echo TO_BE_REMOVED_1700000000''
     = Inr \<lparr>Command = ''echo '' @ multilineCommand_at 1700000000, Time = 1234567890,
            Duration = 0\<rparr> \<and>
   format_entry (multilineCommand_at 1700000000)
       \<lparr>Command = ''echo '' @ multilineCommand_at 1700000000, Time = 1234567890,
        Duration = 0\<rparr>
     = '': 1234567890:0;echo '' @ [backslash, newline] @ [newline]"
  by (simp add: pipeline_defs string_defs)

text \<open>
  Claim C10, amended. On content in which no physical line ends in a backslash the
  normalizer returns the content unchanged; if, moreover, the placeholder does not occur
  in the content, it occurs in no command parsed from it, and every such record is
  printed with its command text as parsed, with no continuation sequence added.
\<close>

theorem normalizer_identity_without_continuation:
  assumes "\<forall>l \<in> set (Split newline content). \<not> HasSuffix_backslash l"
  shows "replaceMultilineCommands content tok = content \<and>
    (\<not> sublist tok content \<longrightarrow>
       (\<forall>line \<in> set (Split newline (replaceMultilineCommands content tok)).
          \<forall>e. parseHistoryLine line = Inr e \<longrightarrow>
            \<not> sublist tok (Command e) \<and>
            format_entry tok e
              = '':'' @ pad_left 11 (format_d (Time e)) @ '':'' @ format_d (Duration e)
                  @ '';'' @ Command e @ [newline]))"
proof -
  have "\<forall>l \<in> set (butlast (Split newline content)). \<not> HasSuffix_backslash l"
    using assms by (meson in_set_butlastD)
  then have id: "replaceMultilineCommands content tok = content"
    by (rule normalizer_identity)
  have "\<not> sublist tok (Command e) \<and>
        format_entry tok e
          = '':'' @ pad_left 11 (format_d (Time e)) @ '':'' @ format_d (Duration e)
              @ '';'' @ Command e @ [newline]"
    if nt: "\<not> sublist tok content" and l: "line \<in> set (Split newline content)"
      and p: "parseHistoryLine line = Inr e" for line e
  proof -
    have "sublist (Command e) line"
      using parseHistoryLine_suffix [OF p] by (rule suffix_imp_sublist)
    moreover have "sublist line content" using l by (rule Split_sublist)
    ultimately have "sublist (Command e) content" by (rule sublist_trans)
    then have a: "\<not> sublist tok (Command e)"
      using nt sublist_trans by blast
    then show ?thesis by (simp add: format_entry_def ReplaceAll_absent)
  qed
  then show ?thesis using id by simp
qed

theorem normalizer_identity_without_continuation_witness:
  "\<not> (\<exists>l \<in> set (Split newline ('': 1234567890:0;ls -la'' @ [newline] @ ''junk'' @ [newline])).
        HasSuffix_backslash l) \<and>
   \<not> sublist (multilineCommand_at 1700000000)
        ('': 1234567890:0;ls -la'' @ [newline] @ ''junk'' @ [newline]) \<and>
   replaceMultilineCommands ('': 1234567890:0;ls -la'' @ [newline] @ ''junk'' @ [newline])
       (multilineCommand_at 1700000000)
     = '': 1234567890:0;ls -la'' @ [newline] @ ''junk'' @ [newline] \<and>
   parseHistoryLine '': 1234567890:0;ls -la''
     = Inr \<lparr>Command = ''ls -la'', Time = 1234567890, Duration = 0\<rparr> \<and>
   \<not> sublist (multilineCommand_at 1700000000) ''ls -la'' \<and>
   format_entry (multilineCommand_at 1700000000)
       \<lparr>Command = ''ls -la'', Time = 1234567890, Duration = 0\<rparr>
     = '': 1234567890:0;ls -la'' @ [newline]"
proof -
  let ?c = "'': 1234567890:0;ls -la'' @ [newline] @ ''junk'' @ [newline]"
  let ?tok = "multilineCommand_at 1700000000"
  let ?e = "\<lparr>Command = ''ls -la'', Time = 1234567890, Duration = 0\<rparr>"
  have sp: "Split newline ?c = ['': 1234567890:0;ls -la'', ''junk'', []]"
    by (simp add: string_defs)
  have h: "\<forall>l \<in> set (Split newline ?c). \<not> HasSuffix_backslash l"
    unfolding sp by (simp add: string_defs)
  have tk: "?tok = ''TO_BE_REMOVED_1700000000''"
    by (simp add: multilineCommand_at_def string_defs)
  have nt: "\<not> sublist ?tok ?c"
    unfolding tk by (simp add: sublist_code string_defs)
  have p: "parseHistoryLine '': 1234567890:0;ls -la'' = Inr ?e"
    by (simp add: pipeline_defs string_defs)
  note t = normalizer_identity_without_continuation [OF h, of ?tok]
  from t have id: "replaceMultilineCommands ?c ?tok = ?c" by blast
  have "'': 1234567890:0;ls -la'' \<in> set (Split newline (replaceMultilineCommands ?c ?tok))"
    unfolding id sp by simp
  with t nt p have r: "\<not> sublist ?tok (Command ?e) \<and> format_entry ?tok ?e
     = '':'' @ pad_left 11 (format_d (Time ?e)) @ '':'' @ format_d (Duration ?e)
                  @ '';'' @ Command ?e @ [newline]"
    by blast
  then have "format_entry ?tok ?e = '': 1234567890:0;ls -la'' @ [newline]"
    by (simp add: string_defs)
  then show ?thesis using h nt id p r by simp
qed


section \<open>Properties of the validator and the parser\<close>

lemma valid_line_shape:
  assumes "validLineRegex line"
  shows "line = '': '' @ timestamp_field line @ '':'' @ duration_field line @ '';''
                 @ command_field line \<and>
         list_all is_digit (timestamp_field line) \<and> 10 \<le> length (timestamp_field line) \<and>
         list_all is_digit (duration_field line) \<and> duration_field line \<noteq> []"
proof -
  from assms obtain r where line: "line = CHR '':'' # CHR '' '' # r"
    by (auto simp: validLineRegex_def split: list.splits)
  from assms line obtain r2 where r: "dropWhile is_digit r = CHR '':'' # r2"
    and l10: "10 \<le> length (takeWhile is_digit r)"
    by (auto simp: validLineRegex_def split: list.splits)
  from assms line r obtain r3 where r2: "dropWhile is_digit r2 = CHR '';'' # r3"
    and l1: "1 \<le> length (takeWhile is_digit r2)"
    by (auto simp: validLineRegex_def split: list.splits)
  have ts: "timestamp_field line = takeWhile is_digit r"
    by (simp add: timestamp_field_def line)
  have du: "duration_field line = takeWhile is_digit r2"
    by (simp add: duration_field_def line r)
  have req: "r = takeWhile is_digit r @ CHR '':'' # takeWhile is_digit r2 @ CHR '';'' # r3"
    using takeWhile_dropWhile_id [of is_digit r] takeWhile_dropWhile_id [of is_digit r2] r r2
    by simp
  have nd: "\<forall>c \<in> set (takeWhile is_digit r). c \<noteq> CHR '';''"
    "\<forall>c \<in> set (takeWhile is_digit r2). c \<noteq> CHR '';''"
    by (auto dest!: set_takeWhileD simp: is_digit_def)
  have "dropWhile (\<lambda>c. c \<noteq> CHR '';'') line
      = dropWhile (\<lambda>c. c \<noteq> CHR '';'') (takeWhile is_digit r @ CHR '':'' # takeWhile is_digit r2 @ CHR '';'' # r3)"
    using req by (simp add: line)
  also have "\<dots> = dropWhile (\<lambda>c. c \<noteq> CHR '';'') (CHR '':'' # takeWhile is_digit r2 @ CHR '';'' # r3)"
    using nd(1) by (simp add: dropWhile_append2)
  also have "\<dots> = CHR '';'' # r3"
    using nd(2) by (simp add: dropWhile_append2)
  finally have cm: "command_field line = r3" by (simp add: command_field_def)
  have "'': '' @ timestamp_field line @ '':'' @ duration_field line @ '';''
                 @ command_field line = CHR '':'' # CHR '' '' # r"
    unfolding ts du cm using req by simp
  then have "line = '': '' @ timestamp_field line @ '':'' @ duration_field line @ '';''
                 @ command_field line"
    using line by simp
  moreover have "list_all is_digit (timestamp_field line)" "list_all is_digit (duration_field line)"
    unfolding ts du by (auto simp: list_all_iff dest: set_takeWhileD)
  moreover have "duration_field line \<noteq> []" using l1 du by auto
  ultimately show ?thesis using l10 ts by simp
qed

lemma Split_no_sep: "c \<notin> set xs \<Longrightarrow> Split c xs = [xs]"
  by (induction xs) auto

lemma Split_append_sep: "c \<notin> set xs \<Longrightarrow> Split c (xs @ c # ys) = xs # Split c ys"
  by (induction xs) auto

lemma digits_no_char:
  "list_all is_digit ds \<Longrightarrow> c \<notin> set ''+-:; '' \<Longrightarrow> \<not> is_digit c \<Longrightarrow> c \<notin> set ds"
  by (auto simp: list_all_iff)

lemma digit_not_special:
  "is_digit c \<Longrightarrow> c \<noteq> CHR '':'' \<and> c \<noteq> CHR '';'' \<and> c \<noteq> CHR '' '' \<and> c \<noteq> CHR ''+''
     \<and> c \<noteq> CHR ''-'' \<and> \<not> is_trim_space c"
  by (auto simp: is_digit_def is_trim_space_def)

lemma TrimSpace_digits: "list_all is_digit ds \<Longrightarrow> TrimSpace ds = ds"
proof -
  assume a: "list_all is_digit ds"
  have 1: "dropWhile is_trim_space ds = ds"
    using a digit_not_special by (cases ds) auto
  have "list_all is_digit (rev ds)" using a by (simp add: list_all_iff)
  then have 2: "dropWhile is_trim_space (rev ds) = rev ds"
    using digit_not_special by (cases "rev ds") auto
  show ?thesis by (simp add: TrimSpace_def 1 2)
qed

lemma TrimSpace_space_digits:
  "list_all is_digit ds \<Longrightarrow> TrimSpace (CHR '' '' # ds) = ds"
proof -
  assume a: "list_all is_digit ds"
  have "dropWhile is_trim_space (CHR '' '' # ds) = dropWhile is_trim_space ds"
    by (simp add: is_trim_space_def)
  also have "\<dots> = ds" using a digit_not_special by (cases ds) auto
  finally have 1: "dropWhile is_trim_space (CHR '' '' # ds) = ds" .
  have "list_all is_digit (rev ds)" using a by (simp add: list_all_iff)
  then have 2: "dropWhile is_trim_space (rev ds) = rev ds"
    using digit_not_special by (cases "rev ds") auto
  show ?thesis by (simp only: TrimSpace_def 1 2 rev_rev_ident)
qed

lemma ParseInt_digits:
  assumes "list_all is_digit ds" "ds \<noteq> []"
  shows "ParseInt ds b = (if digits_val ds < 2 ^ (b - 1) then Some (int (digits_val ds)) else None)"
proof -
  obtain c r where ds: "ds = c # r" using assms(2) by (cases ds) auto
  then have "is_digit c" using assms(1) by simp
  then have "c \<noteq> CHR ''+''" "c \<noteq> CHR ''-''" using digit_not_special by blast+
  then show ?thesis using assms(1) unfolding ds ParseInt_def
    by (simp add: Let_def not_less)
qed

lemma parse_valid_line:
  assumes "validLineRegex line"
  shows "parseHistoryLine line =
     (if digits_val (timestamp_field line) < 2 ^ 63
      then if digits_val (duration_field line) < 2 ^ (IntSize - 1)
           then Inr (entry_of_line line) else Inl InvalidDuration
      else Inl InvalidTimestamp)"
proof -
  define ts where "ts = timestamp_field line"
  define du where "du = duration_field line"
  define cm where "cm = command_field line"
  from valid_line_shape [OF assms] have
    line: "line = '': '' @ ts @ '':'' @ du @ '';'' @ cm" and
    dts: "list_all is_digit ts" and lts: "10 \<le> length ts" and
    ddu: "list_all is_digit du" and ndu: "du \<noteq> []"
    unfolding ts_def du_def cm_def by blast+
  have nts: "ts \<noteq> []" using lts by auto
  have semi: "CHR '';'' \<notin> set ('': '' @ ts @ '':'' @ du)"
    using dts ddu digit_not_special by (auto simp: list_all_iff)
  have colon: "CHR '':'' \<notin> set (CHR '' '' # ts)" "CHR '':'' \<notin> set du"
    using dts ddu digit_not_special by (auto simp: list_all_iff)
  have in_line: "CHR '';'' \<in> set line" unfolding line by simp
  have "takeWhile (\<lambda>c. c \<noteq> CHR '';'') (('': '' @ ts @ '':'' @ du) @ CHR '';'' # cm)
      = takeWhile (\<lambda>c. c \<noteq> CHR '';'') ('': '' @ ts @ '':'' @ du)"
    by (rule takeWhile_tail) simp
  also have "\<dots> = '': '' @ ts @ '':'' @ du"
    using semi by (subst takeWhile_eq_all_conv) auto
  finally have tw: "takeWhile (\<lambda>c. c \<noteq> CHR '';'') line = '': '' @ ts @ '':'' @ du"
    unfolding line by simp
  have sn: "SplitN2 (CHR '';'') line = ['': '' @ ts @ '':'' @ du, cm]"
    using in_line tw by (simp add: SplitN2_def cm_def command_field_def)
  have "Split (CHR '':'') ('': '' @ ts @ '':'' @ du)
      = [] # Split (CHR '':'') ((CHR '' '' # ts) @ CHR '':'' # du)"
    by simp
  also have "\<dots> = [] # (CHR '' '' # ts) # Split (CHR '':'') du"
    using Split_append_sep [OF colon(1), of du] by (simp only:)
  also have "\<dots> = [[], CHR '' '' # ts, du]"
    using colon(2) by (simp add: Split_no_sep)
  finally have sp: "Split (CHR '':'') ('': '' @ ts @ '':'' @ du) = [[], CHR '' '' # ts, du]" .
  have p1: "ParseInt (TrimSpace (CHR '' '' # ts)) 64
      = (if digits_val ts < 2 ^ 63 then Some (int (digits_val ts)) else None)"
    using ParseInt_digits [OF dts nts, of 64] by (simp add: TrimSpace_space_digits [OF dts])
  have p2: "Atoi (TrimSpace du)
      = (if digits_val du < 2 ^ (IntSize - 1) then Some (int (digits_val du)) else None)"
    using ParseInt_digits [OF ddu ndu, of IntSize]
    by (simp add: TrimSpace_digits [OF ddu] Atoi_def)
  have "parseHistoryLine line =
     (if digits_val ts < 2 ^ 63
      then if digits_val du < 2 ^ (IntSize - 1)
           then Inr \<lparr>Command = cm, Time = int (digits_val ts), Duration = int (digits_val du)\<rparr>
           else Inl InvalidDuration
      else Inl InvalidTimestamp)"
  proof -
    have sp': "Split (CHR '':'') (CHR '':'' # CHR '' '' # ts @ CHR '':'' # du)
        = [[], CHR '' '' # ts, du]"
      using sp by simp
    show ?thesis
      unfolding parseHistoryLine_def sn
      by (simp add: p1 p2 sp' del: Split.simps)
  qed
  then show ?thesis by (simp add: entry_of_line_def ts_def du_def cm_def)
qed

lemma process_lines_in_range:
  "\<forall>l \<in> set lines. validLineRegex l \<longrightarrow> fields_in_range l \<Longrightarrow>
   process_lines lines m = Inr (dedup m (map entry_of_line (filter validLineRegex lines)))"
proof (induction lines arbitrary: m)
  case Nil
  show ?case by (simp add: dedup_def)
next
  case (Cons l ls)
  show ?case
  proof (cases "validLineRegex l")
    case True
    then have nz: "l \<noteq> []" by (auto simp: validLineRegex_def)
    have "fields_in_range l" using Cons.prems True by simp
    then have "parseHistoryLine l = Inr (entry_of_line l)"
      using parse_valid_line [OF True] by (simp add: fields_in_range_def)
    then show ?thesis using True nz Cons by (simp add: dedup_def)
  next
    case False
    then show ?thesis using Cons by simp
  qed
qed

lemma process_lines_out_of_range:
  "\<exists>l \<in> set lines. validLineRegex l \<and> \<not> fields_in_range l \<Longrightarrow>
   \<exists>l err. l \<in> set lines \<and> validLineRegex l \<and> \<not> fields_in_range l \<and>
     process_lines lines m = Inl (ParseLineError l err)"
proof (induction lines arbitrary: m)
  case Nil
  then show ?case by simp
next
  case (Cons l ls)
  show ?case
  proof (cases "validLineRegex l")
    case True
    then have nz: "l \<noteq> []" by (auto simp: validLineRegex_def)
    show ?thesis
    proof (cases "fields_in_range l")
      case False
      then have "\<exists>err. parseHistoryLine l = Inl err"
        using parse_valid_line [OF True] by (auto simp: fields_in_range_def)
      then show ?thesis using True nz False by auto
    next
      case ir: True
      then have p: "parseHistoryLine l = Inr (entry_of_line l)"
        using parse_valid_line [OF True] by (simp add: fields_in_range_def)
      from Cons.prems ir have "\<exists>l \<in> set ls. validLineRegex l \<and> \<not> fields_in_range l" by auto
      from Cons.IH [OF this, of "upsert m (entry_of_line l)"] show ?thesis
        using True nz p by auto
    qed
  next
    case False
    with Cons.prems have "\<exists>l \<in> set ls. validLineRegex l \<and> \<not> fields_in_range l" by auto
    from Cons.IH [OF this, of m] show ?thesis using False by auto
  qed
qed


text \<open>
  Claim C4 says that under the lenient policy the run never aborts, lines with an
  arbitrarily large duration included. A line the validator accepts is still parsed with
  \<open>strconv.Atoi\<close> and \<open>strconv.ParseInt\<close>, and a parse error is returned to
  \<open>main\<close>, which ends the run: a duration of twenty digits aborts it.
\<close>

theorem lenient_policy_counterexample:
  "validLineRegex '': 1234567890:99999999999999999999;ls'' \<and>
   readFileContent ('': 1234567890:99999999999999999999;ls'' @ [newline])
     = Inr ('': 1234567890:99999999999999999999;ls'' @ [newline]) \<and>
   process_files [Some ('': 1234567890:99999999999999999999;ls'' @ [newline])]
       (multilineCommand_at 1700000000) Map.empty
     = Inl (ParseLineError '': 1234567890:99999999999999999999;ls'' InvalidDuration)"
  by (simp add: pipeline_defs string_defs utf8_defs)

text \<open>
  Claim C4, amended. For a file that could be read: every logical line that fails the
  record grammar, and every empty line, is skipped and processing continues. When the
  timestamp of every well-formed line fits a signed 64-bit integer and its duration fits
  Go's \<open>int\<close>, the run does not abort and the merge table receives exactly the records
  of the well-formed lines, in order. A well-formed line with a timestamp or duration
  outside that range aborts the run with a parse error.
\<close>

theorem lenient_policy_in_range:
  assumes "readFileContent data = Inr content"
  shows
   "((\<forall>l \<in> set (Split newline (replaceMultilineCommands content tok)).
        validLineRegex l \<longrightarrow> fields_in_range l) \<longrightarrow>
     processHistoryFile (Some data) tok commands
       = Inr (dedup commands (map entry_of_line
           (filter validLineRegex (Split newline (replaceMultilineCommands content tok)))))) \<and>
    ((\<exists>l \<in> set (Split newline (replaceMultilineCommands content tok)).
        validLineRegex l \<and> \<not> fields_in_range l) \<longrightarrow>
     (\<exists>l err. validLineRegex l \<and> \<not> fields_in_range l \<and>
        processHistoryFile (Some data) tok commands = Inl (ParseLineError l err))) \<and>
    (\<forall>l. validLineRegex l \<and> fields_in_range l \<longrightarrow> parseHistoryLine l = Inr (entry_of_line l))"
proof -
  let ?ls = "Split newline (replaceMultilineCommands content tok)"
  have p: "processHistoryFile (Some data) tok commands = process_lines ?ls commands"
    using assms by (simp add: processHistoryFile_def)
  have "(\<forall>l \<in> set ?ls. validLineRegex l \<longrightarrow> fields_in_range l) \<longrightarrow>
     processHistoryFile (Some data) tok commands
       = Inr (dedup commands (map entry_of_line (filter validLineRegex ?ls)))"
    unfolding p using process_lines_in_range by blast
  moreover have "(\<exists>l \<in> set ?ls. validLineRegex l \<and> \<not> fields_in_range l) \<longrightarrow>
     (\<exists>l err. validLineRegex l \<and> \<not> fields_in_range l \<and>
        processHistoryFile (Some data) tok commands = Inl (ParseLineError l err))"
    unfolding p using process_lines_out_of_range [of ?ls commands] by blast
  moreover have "\<forall>l. validLineRegex l \<and> fields_in_range l \<longrightarrow>
      parseHistoryLine l = Inr (entry_of_line l)"
    using parse_valid_line by (simp add: fields_in_range_def)
  ultimately show ?thesis by blast
qed

theorem lenient_policy_in_range_witness:
  "readFileContent ('': 1234567890:0;ls'' @ [newline] @ ''garbage'' @ [newline] @ [newline]
       @ '': 1234567891:3;pwd'' @ [newline])
     = Inr ('': 1234567890:0;ls'' @ [newline] @ ''garbage'' @ [newline] @ [newline]
       @ '': 1234567891:3;pwd'' @ [newline]) \<and>
   Split newline (replaceMultilineCommands
       ('': 1234567890:0;ls'' @ [newline] @ ''garbage'' @ [newline] @ [newline]
          @ '': 1234567891:3;pwd'' @ [newline]) (multilineCommand_at 1700000000))
     = ['': 1234567890:0;ls'', ''garbage'', [], '': 1234567891:3;pwd'', []] \<and>
   fields_in_range '': 1234567890:0;ls'' \<and> fields_in_range '': 1234567891:3;pwd'' \<and>
   \<not> validLineRegex ''garbage'' \<and> \<not> validLineRegex [] \<and>
   processHistoryFile
       (Some ('': 1234567890:0;ls'' @ [newline] @ ''garbage'' @ [newline] @ [newline]
          @ '': 1234567891:3;pwd'' @ [newline]))
       (multilineCommand_at 1700000000) Map.empty
     = Inr (Map.empty(''ls'' \<mapsto> \<lparr>Command = ''ls'', Time = 1234567890, Duration = 0\<rparr>,
                      ''pwd'' \<mapsto> \<lparr>Command = ''pwd'', Time = 1234567891, Duration = 3\<rparr>))"
proof -
  let ?data = "'': 1234567890:0;ls'' @ [newline] @ ''garbage'' @ [newline] @ [newline]
       @ '': 1234567891:3;pwd'' @ [newline]"
  let ?tok = "multilineCommand_at 1700000000"
  have r: "readFileContent ?data = Inr ?data"
    by (simp add: pipeline_defs string_defs utf8_defs)
  have sp: "Split newline (replaceMultilineCommands ?data ?tok)
     = ['': 1234567890:0;ls'', ''garbage'', [], '': 1234567891:3;pwd'', []]"
    by (simp add: pipeline_defs string_defs)
  have v: "validLineRegex '': 1234567890:0;ls''" "validLineRegex '': 1234567891:3;pwd''"
    "\<not> validLineRegex ''garbage''" "\<not> validLineRegex []"
    by (simp_all add: pipeline_defs string_defs)
  have f: "fields_in_range '': 1234567890:0;ls''" "fields_in_range '': 1234567891:3;pwd''"
    by (simp_all add: fields_in_range_def timestamp_field_def duration_field_def string_defs)
  have e: "entry_of_line '': 1234567890:0;ls''
             = \<lparr>Command = ''ls'', Time = 1234567890, Duration = 0\<rparr>"
    "entry_of_line '': 1234567891:3;pwd''
             = \<lparr>Command = ''pwd'', Time = 1234567891, Duration = 3\<rparr>"
    by (simp_all add: entry_of_line_def timestamp_field_def duration_field_def
        command_field_def string_defs)
  have h: "\<forall>l \<in> set (Split newline (replaceMultilineCommands ?data ?tok)).
        validLineRegex l \<longrightarrow> fields_in_range l"
    unfolding sp using v f by simp
  from lenient_policy_in_range [OF r, of ?tok Map.empty] h
  have "processHistoryFile (Some ?data) ?tok Map.empty
       = Inr (dedup Map.empty (map entry_of_line
           (filter validLineRegex (Split newline (replaceMultilineCommands ?data ?tok)))))"
    by blast
  also have "\<dots> = Inr (Map.empty(''ls'' \<mapsto> \<lparr>Command = ''ls'', Time = 1234567890, Duration = 0\<rparr>,
                      ''pwd'' \<mapsto> \<lparr>Command = ''pwd'', Time = 1234567891, Duration = 3\<rparr>))"
    unfolding sp using v e by (simp add: dedup_def upsert_def)
  finally show ?thesis using r sp f v by blast
qed


section \<open>Properties of the sanitizer\<close>

lemma divmod_step: "(w::nat) < n \<Longrightarrow> (k * n + w) div n = k \<and> (k * n + w) mod n = w"
  by simp

lemma enc2:
  assumes "194 \<le> a" "a < 224" "128 \<le> b" "b < 192"
  shows "EncodeRune (a mod 32 * 64 + b mod 64) = [a, b]"
proof -
  define x where "x = a - 192"
  define y where "y = b - 128"
  have a: "a = 6 * 32 + x" and x: "2 \<le> x" "x < 32" using assms by (simp_all add: x_def)
  have b: "b = 2 * 64 + y" and y: "y < 64" using assms by (simp_all add: y_def)
  have am: "a mod 32 = x" unfolding a using divmod_step [OF x(2), of 6] by simp
  have bm: "b mod 64 = y" unfolding b using divmod_step [OF y, of 2] by simp
  have r: "\<not> x * 64 + y \<le> 127" "x * 64 + y \<le> 2047" using x y by linarith+
  have d: "(x * 64 + y) div 64 = x" "(x * 64 + y) mod 64 = y"
    using divmod_step [OF y, of x] by simp_all
  have "EncodeRune (x * 64 + y) = [192 + x, 128 + y]"
    unfolding EncodeRune_def using r d by simp
  then show ?thesis unfolding am bm using a b by simp
qed


lemma enc3:
  assumes "224 \<le> a" "a < 240" "128 \<le> b" "b < 192" "128 \<le> c" "c < 192"
    and "a = 224 \<Longrightarrow> 160 \<le> b" and "a = 237 \<Longrightarrow> b < 160"
  shows "EncodeRune (a mod 16 * 4096 + b mod 64 * 64 + c mod 64) = [a, b, c]"
proof -
  define x where "x = a - 224"
  define y where "y = b - 128"
  define z where "z = c - 128"
  have a: "a = 14 * 16 + x" and x: "x < 16" using assms by (simp_all add: x_def)
  have b: "b = 2 * 64 + y" and y: "y < 64" using assms by (simp_all add: y_def)
  have c: "c = 2 * 64 + z" and z: "z < 64" using assms by (simp_all add: z_def)
  have x0: "x = 0 \<Longrightarrow> 32 \<le> y" using assms(7) a b by simp
  have x13: "x = 13 \<Longrightarrow> y < 32" using assms(8) a b by simp
  have am: "a mod 16 = x" unfolding a using divmod_step [OF x, of 14] by simp
  have bm: "b mod 64 = y" unfolding b using divmod_step [OF y, of 2] by simp
  have cm: "c mod 64 = z" unfolding c using divmod_step [OF z, of 2] by simp
  define q where "q = x * 64 + y"
  define r where "r = q * 64 + z"
  have req: "x * 4096 + y * 64 + z = r" by (simp add: r_def q_def)
  have qlo: "32 \<le> q" using x0 y unfolding q_def by (cases "x = 0") simp_all
  have qhi: "q \<le> 1023" using x y unfolding q_def by linarith
  have qns: "\<not> (864 \<le> q \<and> q \<le> 895)"
  proof (cases "x = 13")
    case True
    then show ?thesis using x13 unfolding q_def by simp
  next
    case False
    then have "x \<le> 12 \<or> 14 \<le> x" by linarith
    then show ?thesis using y unfolding q_def by linarith
  qed
  have lo: "\<not> r \<le> 127" "\<not> r \<le> 2047" using qlo z unfolding r_def by linarith+
  have hi: "r \<le> 65535" "\<not> 1114111 < r" using qhi z unfolding r_def by linarith+
  have ns: "\<not> (55296 \<le> r \<and> r \<le> 57343)" using qns z unfolding r_def by linarith
  have d1: "r div 64 = q" "r mod 64 = z" unfolding r_def using divmod_step [OF z, of q] by simp_all
  have d2: "q div 64 = x" "q mod 64 = y" unfolding q_def using divmod_step [OF y, of x] by simp_all
  have "r div 4096 = r div 64 div 64" by (simp add: div_mult2_eq)
  then have d3: "r div 4096 = x" using d1 d2 by simp
  have "EncodeRune r = [224 + x, 128 + y, 128 + z]"
  proof (cases "r < 55296")
    case True
    then show ?thesis unfolding EncodeRune_def using lo hi d1 d2 d3 by simp
  next
    case False
    then have "57343 < r" using ns by linarith
    then show ?thesis unfolding EncodeRune_def using lo hi d1 d2 d3 by simp
  qed
  then show ?thesis unfolding am bm cm req using a b c by simp
qed

lemma enc4:
  assumes "240 \<le> a" "a < 245" "128 \<le> b" "b < 192" "128 \<le> c" "c < 192" "128 \<le> d" "d < 192"
    and "a = 240 \<Longrightarrow> 144 \<le> b" and "a = 244 \<Longrightarrow> b < 144"
  shows "EncodeRune (a mod 8 * 262144 + b mod 64 * 4096 + c mod 64 * 64 + d mod 64) = [a, b, c, d]"
proof -
  define x where "x = a - 240"
  define y where "y = b - 128"
  define z where "z = c - 128"
  define w where "w = d - 128"
  have a: "a = 30 * 8 + x" and x: "x < 5" using assms by (simp_all add: x_def)
  have b: "b = 2 * 64 + y" and y: "y < 64" using assms by (simp_all add: y_def)
  have c: "c = 2 * 64 + z" and z: "z < 64" using assms by (simp_all add: z_def)
  have d: "d = 2 * 64 + w" and w: "w < 64" using assms by (simp_all add: w_def)
  have x0: "x = 0 \<Longrightarrow> 16 \<le> y" using assms(9) a b by simp
  have x4: "x = 4 \<Longrightarrow> y < 16" using assms(10) a b by simp
  have x8: "x < 8" using x by simp
  have am: "a mod 8 = x" unfolding a using divmod_step [OF x8, of 30] by simp
  have bm: "b mod 64 = y" unfolding b using divmod_step [OF y, of 2] by simp
  have cm: "c mod 64 = z" unfolding c using divmod_step [OF z, of 2] by simp
  have dm: "d mod 64 = w" unfolding d using divmod_step [OF w, of 2] by simp
  define p where "p = x * 64 + y"
  define q where "q = p * 64 + z"
  define r where "r = q * 64 + w"
  have req: "x * 262144 + y * 4096 + z * 64 + w = r" by (simp add: r_def q_def p_def)
  have plo: "16 \<le> p" using x0 y unfolding p_def by (cases "x = 0") simp_all
  have phi: "p \<le> 271"
  proof (cases "x = 4")
    case True
    then show ?thesis using x4 unfolding p_def by simp
  next
    case False
    then have "x \<le> 3" using x by linarith
    then show ?thesis using y unfolding p_def by linarith
  qed
  have qlo: "1024 \<le> q" using plo unfolding q_def by linarith
  have qhi: "q \<le> 17407" using phi z unfolding q_def by linarith
  have lo: "\<not> r \<le> 127" "\<not> r \<le> 2047" "\<not> r \<le> 65535" "\<not> (55296 \<le> r \<and> r \<le> 57343)"
    using qlo unfolding r_def by linarith+
  have hi: "\<not> 1114111 < r" using qhi w unfolding r_def by linarith
  have d1: "r div 64 = q" "r mod 64 = w" unfolding r_def using divmod_step [OF w, of q] by simp_all
  have d2: "q div 64 = p" "q mod 64 = z" unfolding q_def using divmod_step [OF z, of p] by simp_all
  have d3: "p div 64 = x" "p mod 64 = y" unfolding p_def using divmod_step [OF y, of x] by simp_all
  have "r div 4096 = r div 64 div 64" by (simp add: div_mult2_eq)
  then have d4: "r div 4096 = p" using d1 d2 by simp
  have "r div 262144 = r div 4096 div 64" by (simp add: div_mult2_eq)
  then have d5: "r div 262144 = x" using d4 d3 by simp
  have "EncodeRune r = [240 + x, 128 + y, 128 + z, 128 + w]"
    unfolding EncodeRune_def using lo hi d1 d2 d3 d4 d5 by simp
  then show ?thesis unfolding am bm cm dm req using a b c d by simp
qed


lemma first_size_cases:
  "first_size b = 0 \<or> first_size b = 1 \<or> first_size b = 2 \<or> first_size b = 3 \<or> first_size b = 4"
  by (simp add: first_size_def)

lemma first_size_1: "first_size b = 1 \<longleftrightarrow> b < 128"
  by (simp add: first_size_def)

lemma first_size_2: "first_size b = 2 \<longleftrightarrow> 194 \<le> b \<and> b < 224"
  by (auto simp: first_size_def)

lemma first_size_3: "first_size b = 3 \<longleftrightarrow> 224 \<le> b \<and> b < 240"
  by (auto simp: first_size_def)

lemma first_size_4: "first_size b = 4 \<longleftrightarrow> 240 \<le> b \<and> b < 245"
  by (auto simp: first_size_def)

lemma decode0: "first_size s0 = 0 \<Longrightarrow> DecodeRune (s0 # t) = (RuneError, 1)"
  by (simp add: DecodeRune_def)

lemma decode1: "first_size s0 = 1 \<Longrightarrow> DecodeRune (s0 # t) = (s0, 1)"
  by (simp add: DecodeRune_def)

lemma decode2_short: "first_size s0 = 2 \<Longrightarrow> DecodeRune [s0] = (RuneError, 1)"
  by (simp add: DecodeRune_def)

lemma decode2:
  "first_size s0 = 2 \<Longrightarrow> DecodeRune (s0 # s1 # t) =
     (if second_ok s0 s1 then (s0 mod 32 * 64 + s1 mod 64, 2) else (RuneError, 1))"
  by (simp add: DecodeRune_def second_ok_def)

lemma decode3_short:
  "first_size s0 = 3 \<Longrightarrow> length t < 2 \<Longrightarrow> DecodeRune (s0 # t) = (RuneError, 1)"
  by (simp add: DecodeRune_def)

lemma decode3:
  "first_size s0 = 3 \<Longrightarrow> DecodeRune (s0 # s1 # s2 # t) =
     (if second_ok s0 s1 \<and> cont_ok s2
      then (s0 mod 16 * 4096 + s1 mod 64 * 64 + s2 mod 64, 3) else (RuneError, 1))"
  by (simp add: DecodeRune_def second_ok_def cont_ok_def)

lemma decode4_short:
  "first_size s0 = 4 \<Longrightarrow> length t < 3 \<Longrightarrow> DecodeRune (s0 # t) = (RuneError, 1)"
  by (simp add: DecodeRune_def)

lemma decode4:
  "first_size s0 = 4 \<Longrightarrow> DecodeRune (s0 # s1 # s2 # s3 # t) =
     (if second_ok s0 s1 \<and> cont_ok s2 \<and> cont_ok s3
      then (s0 mod 8 * 262144 + s1 mod 64 * 4096 + s2 mod 64 * 64 + s3 mod 64, 4)
      else (RuneError, 1))"
  by (simp add: DecodeRune_def second_ok_def cont_ok_def)

lemma first_size_not_ascii: "2 \<le> first_size s0 \<Longrightarrow> \<not> s0 < 128"
  by (simp add: first_size_def split: if_splits)

lemma valid0: "first_size s0 = 0 \<Longrightarrow> \<not> valid_bytes (s0 # t)"
proof -
  assume fs: "first_size s0 = 0"
  then have "\<not> s0 < 128" by (simp add: first_size_def split: if_splits)
  then show ?thesis using fs by simp
qed

lemma valid1: "first_size s0 = 1 \<Longrightarrow> valid_bytes (s0 # t) = valid_bytes t"
proof -
  assume "first_size s0 = 1"
  then have "s0 < 128" by (simp add: first_size_def split: if_splits)
  then show ?thesis by simp
qed

lemma valid2_short: "first_size s0 = 2 \<Longrightarrow> \<not> valid_bytes [s0]"
proof -
  assume fs: "first_size s0 = 2"
  then have "\<not> s0 < 128" by (simp add: first_size_not_ascii)
  then show ?thesis using fs by simp
qed

lemma valid2:
  "first_size s0 = 2 \<Longrightarrow> valid_bytes (s0 # s1 # t) = (second_ok s0 s1 \<and> valid_bytes t)"
proof -
  assume fs: "first_size s0 = 2"
  then have "\<not> s0 < 128" by (simp add: first_size_not_ascii)
  then show ?thesis using fs by (simp add: second_ok_def)
qed

lemma valid3_short: "first_size s0 = 3 \<Longrightarrow> length t < 2 \<Longrightarrow> \<not> valid_bytes (s0 # t)"
proof -
  assume fs: "first_size s0 = 3" and l: "length t < 2"
  then have "\<not> s0 < 128" by (simp add: first_size_not_ascii)
  then show ?thesis using fs l by simp
qed

lemma valid3:
  "first_size s0 = 3 \<Longrightarrow>
   valid_bytes (s0 # s1 # s2 # t) = (second_ok s0 s1 \<and> cont_ok s2 \<and> valid_bytes t)"
proof -
  assume fs: "first_size s0 = 3"
  then have "\<not> s0 < 128" by (simp add: first_size_not_ascii)
  then show ?thesis using fs by (simp add: second_ok_def cont_ok_def)
qed

lemma valid4_short: "first_size s0 = 4 \<Longrightarrow> length t < 3 \<Longrightarrow> \<not> valid_bytes (s0 # t)"
proof -
  assume fs: "first_size s0 = 4" and l: "length t < 3"
  then have "\<not> s0 < 128" by (simp add: first_size_not_ascii)
  then show ?thesis using fs l by simp
qed

lemma valid4:
  "first_size s0 = 4 \<Longrightarrow>
   valid_bytes (s0 # s1 # s2 # s3 # t)
     = (second_ok s0 s1 \<and> cont_ok s2 \<and> cont_ok s3 \<and> valid_bytes t)"
proof -
  assume fs: "first_size s0 = 4"
  then have "\<not> s0 < 128" by (simp add: first_size_not_ascii)
  then show ?thesis using fs by (simp add: second_ok_def cont_ok_def)
qed


lemma second_ok_bounds:
  "second_ok s0 s1 \<Longrightarrow>
   128 \<le> s1 \<and> s1 < 192 \<and> (s0 = 224 \<longrightarrow> 160 \<le> s1) \<and> (s0 = 237 \<longrightarrow> s1 < 160) \<and>
   (s0 = 240 \<longrightarrow> 144 \<le> s1) \<and> (s0 = 244 \<longrightarrow> s1 < 144)"
  by (auto simp: second_ok_def accept_lo_def accept_hi_def split: if_splits)

lemma cont_ok_bounds: "cont_ok b \<Longrightarrow> 128 \<le> b \<and> b < 192"
  by (auto simp: cont_ok_def)

lemma step1: assumes "first_size s0 = 1" shows "good_step (s0 # t)"
proof -
  have lt: "s0 < 128" using assms by (simp add: first_size_def split: if_splits)
  have d: "DecodeRune (s0 # t) = (s0, 1)" using assms by (rule decode1)
  have ne: "(s0, 1::nat) \<noteq> (RuneError, 1)" using lt by (simp add: RuneError_def)
  have e: "EncodeRune s0 = [s0]" using lt by (simp add: EncodeRune_def)
  have "\<forall>ys. DecodeRune ([s0] @ ys) = (s0, 1) \<and> valid_bytes ([s0] @ ys) = valid_bytes ys"
    using decode1 [OF assms] valid1 [OF assms] by simp
  then show ?thesis unfolding good_step_def d using ne e by simp
qed

lemma step2:
  assumes "first_size s0 = 2" "second_ok s0 s1" shows "good_step (s0 # s1 # t)"
proof -
  let ?r = "s0 mod 32 * 64 + s1 mod 64"
  have d: "DecodeRune (s0 # s1 # t) = (?r, 2)" using decode2 [OF assms(1)] assms(2) by simp
  have b0: "194 \<le> s0" "s0 < 224" using assms(1) first_size_2 by blast+
  have b1: "128 \<le> s1" "s1 < 192" using second_ok_bounds [OF assms(2)] by blast+
  have e: "EncodeRune ?r = [s0, s1]" using b0 b1 by (rule enc2)
  have "\<forall>ys. DecodeRune ([s0, s1] @ ys) = (?r, 2) \<and> valid_bytes ([s0, s1] @ ys) = valid_bytes ys"
    using decode2 [OF assms(1)] valid2 [OF assms(1)] assms(2) by simp
  then show ?thesis unfolding good_step_def d using e by simp
qed

lemma step3:
  assumes "first_size s0 = 3" "second_ok s0 s1" "cont_ok s2"
  shows "good_step (s0 # s1 # s2 # t)"
proof -
  let ?r = "s0 mod 16 * 4096 + s1 mod 64 * 64 + s2 mod 64"
  have d: "DecodeRune (s0 # s1 # s2 # t) = (?r, 3)"
    using decode3 [OF assms(1)] assms(2,3) by simp
  have b0: "224 \<le> s0" "s0 < 240" using assms(1) first_size_3 by blast+
  have b1: "128 \<le> s1" "s1 < 192" "s0 = 224 \<Longrightarrow> 160 \<le> s1" "s0 = 237 \<Longrightarrow> s1 < 160"
    using second_ok_bounds [OF assms(2)] by blast+
  have b2: "128 \<le> s2" "s2 < 192" using cont_ok_bounds [OF assms(3)] by blast+
  have e: "EncodeRune ?r = [s0, s1, s2]" using b0 b1(1,2) b2 b1(3,4) by (rule enc3)
  have "\<forall>ys. DecodeRune ([s0, s1, s2] @ ys) = (?r, 3) \<and>
      valid_bytes ([s0, s1, s2] @ ys) = valid_bytes ys"
    using decode3 [OF assms(1)] valid3 [OF assms(1)] assms(2,3) by simp
  then show ?thesis unfolding good_step_def d using e by simp
qed

lemma step4:
  assumes "first_size s0 = 4" "second_ok s0 s1" "cont_ok s2" "cont_ok s3"
  shows "good_step (s0 # s1 # s2 # s3 # t)"
proof -
  let ?r = "s0 mod 8 * 262144 + s1 mod 64 * 4096 + s2 mod 64 * 64 + s3 mod 64"
  have d: "DecodeRune (s0 # s1 # s2 # s3 # t) = (?r, 4)"
    using decode4 [OF assms(1)] assms(2,3,4) by simp
  have b0: "240 \<le> s0" "s0 < 245" using assms(1) first_size_4 by blast+
  have b1: "128 \<le> s1" "s1 < 192" "s0 = 240 \<Longrightarrow> 144 \<le> s1" "s0 = 244 \<Longrightarrow> s1 < 144"
    using second_ok_bounds [OF assms(2)] by blast+
  have b2: "128 \<le> s2" "s2 < 192" using cont_ok_bounds [OF assms(3)] by blast+
  have b3: "128 \<le> s3" "s3 < 192" using cont_ok_bounds [OF assms(4)] by blast+
  have e: "EncodeRune ?r = [s0, s1, s2, s3]" using b0 b1(1,2) b2 b3 b1(3,4) by (rule enc4)
  have "\<forall>ys. DecodeRune ([s0, s1, s2, s3] @ ys) = (?r, 4) \<and>
      valid_bytes ([s0, s1, s2, s3] @ ys) = valid_bytes ys"
    using decode4 [OF assms(1)] valid4 [OF assms(1)] assms(2,3,4) by simp
  then show ?thesis unfolding good_step_def d using e by simp
qed

lemma decode_step: "bad_step (s0 # t) \<or> good_step (s0 # t)"
proof -
  consider "first_size s0 = 0" | "first_size s0 = 1" | "first_size s0 = 2"
    | "first_size s0 = 3" | "first_size s0 = 4"
    using first_size_cases [of s0] by auto
  then show ?thesis
  proof cases
    case 1
    then show ?thesis using decode0 valid0 by (simp add: bad_step_def)
  next
    case 2
    then show ?thesis using step1 by blast
  next
    case 3
    show ?thesis
    proof (cases t)
      case Nil
      then show ?thesis using 3 decode2_short valid2_short by (simp add: bad_step_def)
    next
      case (Cons s1 t1)
      show ?thesis
      proof (cases "second_ok s0 s1")
        case True
        then show ?thesis using 3 Cons step2 by blast
      next
        case False
        then show ?thesis using 3 Cons decode2 [OF 3] valid2 [OF 3] by (simp add: bad_step_def)
      qed
    qed
  next
    case 4
    show ?thesis
    proof (cases "length t < 2")
      case True
      then show ?thesis using 4 decode3_short valid3_short by (simp add: bad_step_def)
    next
      case False
      then obtain s1 s2 t2 where t: "t = s1 # s2 # t2"
        by (cases t; cases "tl t") auto
      show ?thesis
      proof (cases "second_ok s0 s1 \<and> cont_ok s2")
        case True
        then show ?thesis using 4 t step3 by blast
      next
        case False
        then show ?thesis unfolding t using decode3 [OF 4] valid3 [OF 4]
          by (auto simp: bad_step_def)
      qed
    qed
  next
    case 5
    show ?thesis
    proof (cases "length t < 3")
      case True
      then show ?thesis using 5 decode4_short valid4_short by (simp add: bad_step_def)
    next
      case False
      then obtain s1 s2 s3 t3 where t: "t = s1 # s2 # s3 # t3"
        by (cases t; cases "tl t"; cases "tl (tl t)") auto
      show ?thesis
      proof (cases "second_ok s0 s1 \<and> cont_ok s2 \<and> cont_ok s3")
        case True
        then show ?thesis using 5 t step4 by blast
      next
        case False
        then show ?thesis unfolding t using decode4 [OF 5] valid4 [OF 5]
          by (auto simp: bad_step_def)
      qed
    qed
  qed
qed


lemma bad_single: "DecodeRune (s0 # t) = (RuneError, 1) \<Longrightarrow> DecodeRune [s0] = (RuneError, 1)"
proof -
  assume d: "DecodeRune (s0 # t) = (RuneError, 1)"
  consider "first_size s0 = 0" | "first_size s0 = 1" | "2 \<le> first_size s0"
    using first_size_cases [of s0] by auto
  then show ?thesis
  proof cases
    case 1
    then show ?thesis by (rule decode0)
  next
    case 2
    then have "s0 < 128" by (simp add: first_size_def split: if_splits)
    moreover have "s0 = RuneError" using d decode1 [OF 2, of t] by simp
    ultimately show ?thesis by (simp add: RuneError_def)
  next
    case 3
    then show ?thesis by (simp add: DecodeRune_def)
  qed
qed

lemma map_char_of_of_char: "map char_of (map (of_char :: char \<Rightarrow> nat) xs) = xs"
  by (induction xs) auto

lemma char_step:
  fixes c :: char and cs :: string
  defines "D \<equiv> DecodeRuneInString (c # cs)"
  shows "(D = (RuneError, 1) \<and> \<not> ValidString (c # cs) \<and>
            DecodeRuneInString [c] = (RuneError, 1)) \<or>
         (D \<noteq> (RuneError, 1) \<and> 1 \<le> snd D \<and>
            WriteRune (fst D) = c # take (snd D - 1) cs \<and>
            DecodeRuneInString (c # take (snd D - 1) cs) = D \<and>
            (\<forall>Y. ValidString ((c # take (snd D - 1) cs) @ Y) = ValidString Y))"
proof -
  let ?bs = "map of_char (c # cs) :: nat list"
  have D: "D = DecodeRune ?bs" by (simp add: D_def DecodeRuneInString_def)
  from decode_step [of "of_char c" "map of_char cs"]
  have "bad_step ?bs \<or> good_step ?bs" by simp
  then show ?thesis
  proof
    assume "bad_step ?bs"
    then have b: "DecodeRune ?bs = (RuneError, 1)" "\<not> valid_bytes ?bs"
      by (simp_all add: bad_step_def)
    have "DecodeRune [of_char c] = (RuneError, 1)"
      using b(1) bad_single [of "of_char c" "map of_char cs"] by simp
    then show ?thesis using b D by (simp add: ValidString_def DecodeRuneInString_def)
  next
    assume "good_step ?bs"
    then have g: "DecodeRune ?bs \<noteq> (RuneError, 1)" "1 \<le> snd D" "snd D \<le> length ?bs"
      "EncodeRune (fst D) = take (snd D) ?bs"
      "\<And>ys. DecodeRune (take (snd D) ?bs @ ys) = D"
      "\<And>ys. valid_bytes (take (snd D) ?bs @ ys) = valid_bytes ys"
      unfolding good_step_def D by blast+
    have tk: "take (snd D) (c # cs) = c # take (snd D - 1) cs"
      using g(2) by (cases "snd D") auto
    have tb: "take (snd D) ?bs = map of_char (c # take (snd D - 1) cs)"
      using tk by (metis take_map)
    have w: "WriteRune (fst D) = c # take (snd D - 1) cs"
      unfolding WriteRune_def g(4) tb by (rule map_char_of_of_char)
    have d2: "DecodeRuneInString (c # take (snd D - 1) cs) = D"
      using g(5) [of "[]"] unfolding tb DecodeRuneInString_def by simp
    have v: "\<forall>Y. ValidString ((c # take (snd D - 1) cs) @ Y) = ValidString Y"
    proof
      fix Y
      have "valid_bytes (take (snd D) ?bs @ map of_char Y) = valid_bytes (map of_char Y)"
        by (rule g(6))
      then show "ValidString ((c # take (snd D - 1) cs) @ Y) = ValidString Y"
        unfolding tb ValidString_def by simp
    qed
    show ?thesis using g(1,2) w d2 v D by simp
  qed
qed

lemma ValidString_hash: "ValidString (CHR ''#'' # Y) = ValidString Y"
  by (simp add: ValidString_def)

lemma sanitize_loop_valid: "ValidString (sanitize_loop s)"
proof (induction s rule: sanitize_loop.induct)
  case 1
  show ?case by (simp add: ValidString_def)
next
  case (2 c cs)
  let ?D = "DecodeRuneInString (c # cs)"
  from char_step [of c cs] show ?case
  proof (elim disjE conjE)
    assume "?D = (RuneError, 1)"
    then show ?thesis using 2 by (simp add: ValidString_hash)
  next
    assume ne: "?D \<noteq> (RuneError, 1)"
      and w: "WriteRune (fst ?D) = c # take (snd ?D - 1) cs"
      and v: "\<forall>Y. ValidString ((c # take (snd ?D - 1) cs) @ Y) = ValidString Y"
    have n: "\<not> (fst ?D = RuneError \<and> snd ?D = 1)" using ne by (metis prod.collapse)
    have "sanitize_loop (c # cs)
        = WriteRune (fst ?D) @ sanitize_loop (drop (snd ?D - 1) cs)"
      by (simp only: sanitize_loop.simps if_not_P [OF n])
    then have "sanitize_loop (c # cs)
        = (c # take (snd ?D - 1) cs) @ sanitize_loop (drop (snd ?D - 1) cs)"
      by (simp only: w)
    then show ?thesis using v 2 by (simp only:)
  qed
qed

lemma sanitize_loop_chunks: "sanitize_loop s = concat (map fix_chunk (utf8_chunks s))"
proof (induction s rule: sanitize_loop.induct)
  case 1
  show ?case by simp
next
  case (2 c cs)
  let ?D = "DecodeRuneInString (c # cs)"
  from char_step [of c cs] show ?case
  proof (elim disjE conjE)
    assume d: "?D = (RuneError, 1)" and s: "DecodeRuneInString [c] = (RuneError, 1)"
    then show ?thesis using 2 by (simp add: fix_chunk_def)
  next
    assume ne: "?D \<noteq> (RuneError, 1)"
      and w: "WriteRune (fst ?D) = c # take (snd ?D - 1) cs"
      and d2: "DecodeRuneInString (c # take (snd ?D - 1) cs) = ?D"
    have n: "\<not> (fst ?D = RuneError \<and> snd ?D = 1)" using ne by (metis prod.collapse)
    have f: "fix_chunk (c # take (snd ?D - 1) cs) = c # take (snd ?D - 1) cs"
      using ne d2 by (simp add: fix_chunk_def)
    have "sanitize_loop (c # cs)
        = WriteRune (fst ?D) @ sanitize_loop (drop (snd ?D - 1) cs)"
      by (simp only: sanitize_loop.simps if_not_P [OF n])
    then have "sanitize_loop (c # cs)
        = (c # take (snd ?D - 1) cs) @ sanitize_loop (drop (snd ?D - 1) cs)"
      by (simp only: w)
    then show ?thesis using 2 f by simp
  qed
qed

lemma utf8_chunks_concat: "concat (utf8_chunks s) = s"
  by (induction s rule: utf8_chunks.induct) simp_all

lemma utf8_chunks_units:
  "ch \<in> set (utf8_chunks s) \<Longrightarrow>
   ch \<noteq> [] \<and> (DecodeRuneInString ch = (RuneError, 1) \<longrightarrow> length ch = 1)"
proof (induction s rule: utf8_chunks.induct)
  case 1
  then show ?case by simp
next
  case (2 c cs)
  let ?D = "DecodeRuneInString (c # cs)"
  from 2 consider "ch = c # take (snd ?D - 1) cs"
    | "ch \<in> set (utf8_chunks (drop (snd ?D - 1) cs))" by auto
  then show ?case
  proof cases
    case 1
    from char_step [of c cs] show ?thesis
    proof (elim disjE conjE)
      assume "?D = (RuneError, 1)"
      then show ?thesis using 1 by simp
    next
      assume "?D \<noteq> (RuneError, 1)" "DecodeRuneInString (c # take (snd ?D - 1) cs) = ?D"
      then show ?thesis using 1 by simp
    qed
  next
    case 2
    then show ?thesis using "2.IH" by simp
  qed
qed

lemma valid_chunks_fixed:
  "ValidString s \<Longrightarrow> concat (map fix_chunk (utf8_chunks s)) = s"
proof (induction s rule: utf8_chunks.induct)
  case 1
  show ?case by simp
next
  case (2 c cs)
  let ?D = "DecodeRuneInString (c # cs)"
  from char_step [of c cs] show ?case
  proof (elim disjE conjE)
    assume "\<not> ValidString (c # cs)"
    then show ?thesis using "2.prems" by simp
  next
    assume ne: "?D \<noteq> (RuneError, 1)"
      and d2: "DecodeRuneInString (c # take (snd ?D - 1) cs) = ?D"
      and v: "\<forall>Y. ValidString ((c # take (snd ?D - 1) cs) @ Y) = ValidString Y"
    have "(c # take (snd ?D - 1) cs) @ drop (snd ?D - 1) cs = c # cs" by simp
    then have "ValidString (drop (snd ?D - 1) cs)" using v "2.prems" by metis
    then have ih: "concat (map fix_chunk (utf8_chunks (drop (snd ?D - 1) cs)))
        = drop (snd ?D - 1) cs" by (rule "2.IH")
    have f: "fix_chunk (c # take (snd ?D - 1) cs) = c # take (snd ?D - 1) cs"
      using ne d2 by (simp add: fix_chunk_def)
    show ?thesis using ih f by simp
  qed
qed

lemma length_concat_same:
  "\<forall>x \<in> set xs. length (f x) = length x \<Longrightarrow> length (concat (map f xs)) = length (concat xs)"
  by (induction xs) auto

lemma length_fix_chunks:
  "length (concat (map fix_chunk (utf8_chunks s))) = length s"
proof -
  have "\<forall>ch \<in> set (utf8_chunks s). length (fix_chunk ch) = length ch"
    using utf8_chunks_units [of _ s] by (auto simp: fix_chunk_def)
  then have "length (concat (map fix_chunk (utf8_chunks s))) = length (concat (utf8_chunks s))"
    by (rule length_concat_same)
  then show ?thesis by (simp add: utf8_chunks_concat)
qed

text \<open>
  Claim C8. For every byte string the sanitizer returns valid UTF-8; it returns a valid
  input unchanged; and its result is the input cut into its UTF-8 sequences with every
  invalid byte, a sequence of one byte, replaced by \<open>#\<close> and every other sequence
  kept, so the length is kept too. The function is total: there is no error to raise.
\<close>

theorem invalidUTF8_sanitizes:
  "ValidString (invalidUTF8 s) \<and>
   (ValidString s \<longrightarrow> invalidUTF8 s = s) \<and>
   invalidUTF8 s = concat (map fix_chunk (utf8_chunks s)) \<and>
   concat (utf8_chunks s) = s \<and>
   (\<forall>ch \<in> set (utf8_chunks s).
      ch \<noteq> [] \<and> (DecodeRuneInString ch = (RuneError, 1) \<longrightarrow> length ch = 1)) \<and>
   length (invalidUTF8 s) = length s"
proof -
  have 1: "ValidString (invalidUTF8 s)"
    using sanitize_loop_valid by (simp add: invalidUTF8_def)
  have 2: "ValidString s \<longrightarrow> invalidUTF8 s = s" by (simp add: invalidUTF8_def)
  have 3: "invalidUTF8 s = concat (map fix_chunk (utf8_chunks s))"
    using sanitize_loop_chunks valid_chunks_fixed by (simp add: invalidUTF8_def)
  have 4: "length (invalidUTF8 s) = length s" unfolding 3 by (rule length_fix_chunks)
  show ?thesis using 1 2 3 4 utf8_chunks_concat utf8_chunks_units by blast
qed


theorem invalidUTF8_sanitizes_witness:
  "\<not> ValidString [CHR ''a'', CHR 0xC3, CHR 0xA9, CHR 0xFF, CHR 0xE2, CHR 0x82, CHR ''b''] \<and>
   utf8_chunks [CHR ''a'', CHR 0xC3, CHR 0xA9, CHR 0xFF, CHR 0xE2, CHR 0x82, CHR ''b'']
     = [[CHR ''a''], [CHR 0xC3, CHR 0xA9], [CHR 0xFF], [CHR 0xE2], [CHR 0x82], [CHR ''b'']] \<and>
   invalidUTF8 [CHR ''a'', CHR 0xC3, CHR 0xA9, CHR 0xFF, CHR 0xE2, CHR 0x82, CHR ''b'']
     = [CHR ''a'', CHR 0xC3, CHR 0xA9, CHR ''#'', CHR ''#'', CHR ''#'', CHR ''b''] \<and>
   ValidString [CHR ''a'', CHR 0xC3, CHR 0xA9, CHR ''#'', CHR ''#'', CHR ''#'', CHR ''b''] \<and>
   ValidString [CHR ''l'', CHR 0xC3, CHR 0xA9] \<and>
   invalidUTF8 [CHR ''l'', CHR 0xC3, CHR 0xA9] = [CHR ''l'', CHR 0xC3, CHR 0xA9]"
proof -
  let ?s = "[CHR ''a'', CHR 0xC3, CHR 0xA9, CHR 0xFF, CHR 0xE2, CHR 0x82, CHR ''b'']"
  let ?v = "[CHR ''l'', CHR 0xC3, CHR 0xA9]"
  have n: "\<not> ValidString ?s" by (simp add: utf8_defs)
  have c: "utf8_chunks ?s
     = [[CHR ''a''], [CHR 0xC3, CHR 0xA9], [CHR 0xFF], [CHR 0xE2], [CHR 0x82], [CHR ''b'']]"
    by (simp add: utf8_defs)
  have f: "concat (map fix_chunk
      [[CHR ''a''], [CHR 0xC3, CHR 0xA9], [CHR 0xFF], [CHR 0xE2], [CHR 0x82], [CHR ''b'']])
     = [CHR ''a'', CHR 0xC3, CHR 0xA9, CHR ''#'', CHR ''#'', CHR ''#'', CHR ''b'']"
    by (simp add: fix_chunk_def utf8_defs)
  have v: "ValidString ?v" by (simp add: utf8_defs)
  from invalidUTF8_sanitizes [of ?s] have
    "invalidUTF8 ?s = concat (map fix_chunk (utf8_chunks ?s))" by blast
  then have i: "invalidUTF8 ?s
      = [CHR ''a'', CHR 0xC3, CHR 0xA9, CHR ''#'', CHR ''#'', CHR ''#'', CHR ''b'']"
    by (simp only: c f)
  from invalidUTF8_sanitizes [of ?s] have "ValidString (invalidUTF8 ?s)" by blast
  then have "ValidString [CHR ''a'', CHR 0xC3, CHR 0xA9, CHR ''#'', CHR ''#'', CHR ''#'', CHR ''b'']"
    by (simp only: i)
  moreover note i
  moreover from v invalidUTF8_sanitizes [of ?v] have "invalidUTF8 ?v = ?v" by blast
  ultimately show ?thesis using n c v by blast
qed


section \<open>The pipeline on well-formed records\<close>

lemma cont_lines_not_Nil: "ps \<noteq> [] \<Longrightarrow> cont_lines ps \<noteq> []"
  by (cases ps rule: cont_lines.cases) auto

lemma join_cont_lines:
  "ps \<noteq> [] \<Longrightarrow>
   join_with [backslash, newline] ps @ [newline]
     = concat (map (\<lambda>l. l @ [newline]) (cont_lines ps))"
  by (induction ps rule: cont_lines.induct) auto

lemma join_with_prepend:
  "ps \<noteq> [] \<Longrightarrow> h @ join_with sep ps = join_with sep ((h @ hd ps) # tl ps)"
  by (cases ps rule: cont_lines.cases) auto

lemma record_text_lines:
  "rec_pieces r \<noteq> [] \<Longrightarrow>
   record_text r = concat (map (\<lambda>l. l @ [newline]) (physical_lines r))"
proof -
  assume ne: "rec_pieces r \<noteq> []"
  have "record_text r
      = join_with [backslash, newline] ((record_header r @ hd (rec_pieces r)) # tl (rec_pieces r))
          @ [newline]"
    unfolding record_text_def using join_with_prepend [OF ne] by simp
  then show ?thesis unfolding physical_lines_def by (simp add: join_cont_lines)
qed

lemma Split_lines:
  "\<forall>l \<in> set ls. c \<notin> set l \<Longrightarrow> Split c (concat (map (\<lambda>l. l @ [c]) ls)) = ls @ [[]]"
proof (induction ls)
  case Nil
  show ?case by simp
next
  case (Cons l ls)
  then have "c \<notin> set l" by simp
  then have "Split c (l @ c # concat (map (\<lambda>l. l @ [c]) ls))
      = l # Split c (concat (map (\<lambda>l. l @ [c]) ls))"
    by (rule Split_append_sep)
  then show ?case using Cons by simp
qed

lemma tl_cont_lines_head:
  "tl (cont_lines ((h @ p) # ps)) = tl (cont_lines (p # ps))"
  by (cases ps) auto

lemma replace_loop_record:
  assumes "qs \<noteq> []" "rest \<noteq> []"
    and "\<forall>l \<in> set (tl (cont_lines qs)). \<not> timestampRegex l"
    and "\<not> HasSuffix_backslash (last qs)"
  shows "replace_loop (cont_lines qs @ rest) tok
           = join_with tok qs @ [newline] @ replace_loop rest tok"
  using assms
proof (induction qs rule: cont_lines.induct)
  case 1
  then show ?case by simp
next
  case (2 p)
  obtain r rs where rest: "rest = r # rs" using 2(2) by (cases rest) auto
  show ?case using 2(4) unfolding rest by (simp add: write_line_def)
next
  case (3 p q ps)
  obtain l ls where cl: "cont_lines (q # ps) = l # ls"
    using cont_lines_not_Nil [of "q # ps"] by (cases "cont_lines (q # ps)") auto
  have nl: "\<not> timestampRegex l" using 3(4) cl by simp
  have tl: "\<forall>x \<in> set (tl (cont_lines (q # ps))). \<not> timestampRegex x"
    using 3(4) cl by simp
  have ih: "replace_loop (cont_lines (q # ps) @ rest) tok
      = join_with tok (q # ps) @ [newline] @ replace_loop rest tok"
    using 3(1) [OF _ 3(3) tl] 3(5) by simp
  have w: "write_line (p @ [backslash]) (Some l) tok = p @ tok"
    using nl by (simp add: write_line_def HasSuffix_backslash_def TrimSuffix_backslash_def)
  have "cont_lines (p # q # ps) @ rest = (p @ [backslash]) # l # (ls @ rest)"
    using cl by simp
  then have "replace_loop (cont_lines (p # q # ps) @ rest) tok
      = write_line (p @ [backslash]) (Some l) tok @ replace_loop (l # (ls @ rest)) tok"
    by simp
  also have "l # (ls @ rest) = cont_lines (q # ps) @ rest" using cl by simp
  finally show ?case unfolding w ih by simp
qed

lemma digit_not_newline: "is_digit c \<Longrightarrow> c \<noteq> newline \<and> c \<noteq> backslash"
  by (auto simp: is_digit_def newline_def backslash_def)

lemma digits_takeWhile:
  "list_all is_digit ds \<Longrightarrow> \<not> is_digit x \<Longrightarrow>
   takeWhile is_digit (ds @ x # r) = ds \<and> dropWhile is_digit (ds @ x # r) = x # r"
  by (induction ds) auto

lemma valid_logical:
  assumes "list_all is_digit ts" "10 \<le> length ts" "list_all is_digit du" "du \<noteq> []"
  shows "validLineRegex ('': '' @ ts @ '':'' @ du @ '';'' @ c) \<and>
         timestamp_field ('': '' @ ts @ '':'' @ du @ '';'' @ c) = ts \<and>
         duration_field ('': '' @ ts @ '':'' @ du @ '';'' @ c) = du \<and>
         command_field ('': '' @ ts @ '':'' @ du @ '';'' @ c) = c"
proof -
  have nd: "\<not> is_digit CHR '':''" "\<not> is_digit CHR '';''" by (simp_all add: is_digit_def)
  have t: "takeWhile is_digit (ts @ CHR '':'' # du @ CHR '';'' # c) = ts"
    "dropWhile is_digit (ts @ CHR '':'' # du @ CHR '';'' # c) = CHR '':'' # du @ CHR '';'' # c"
    using digits_takeWhile [OF assms(1) nd(1)] by blast+
  have d: "takeWhile is_digit (du @ CHR '';'' # c) = du"
    "dropWhile is_digit (du @ CHR '';'' # c) = CHR '';'' # c"
    using digits_takeWhile [OF assms(3) nd(2)] by blast+
  have ld: "1 \<le> length du" using assms(4) by (cases du) auto
  have v: "validLineRegex ('': '' @ ts @ '':'' @ du @ '';'' @ c)"
    using assms(2) ld by (simp add: validLineRegex_def t d)
  have f1: "timestamp_field ('': '' @ ts @ '':'' @ du @ '';'' @ c) = ts"
    by (simp add: timestamp_field_def t)
  have f2: "duration_field ('': '' @ ts @ '':'' @ du @ '';'' @ c) = du"
    by (simp add: duration_field_def t d)
  have semi: "\<forall>x \<in> set ('': '' @ ts @ '':'' @ du). x \<noteq> CHR '';''"
    using assms(1,3) digit_not_special by (auto simp: list_all_iff)
  have "dropWhile (\<lambda>x. x \<noteq> CHR '';'') (('': '' @ ts @ '':'' @ du) @ CHR '';'' # c)
      = dropWhile (\<lambda>x. x \<noteq> CHR '';'') (CHR '';'' # c)"
    using semi by (intro dropWhile_append2) auto
  then have f3: "command_field ('': '' @ ts @ '':'' @ du @ '';'' @ c) = c"
    by (simp add: command_field_def)
  show ?thesis using v f1 f2 f3 by blast
qed

lemma logical_line_entry:
  assumes "record_ok tok r"
  shows "validLineRegex (logical_line tok r) \<and> fields_in_range (logical_line tok r) \<and>
         entry_of_line (logical_line tok r) = record_entry tok r"
proof -
  from assms have a: "list_all is_digit (rec_time r)" "10 \<le> length (rec_time r)"
    "list_all is_digit (rec_duration r)" "rec_duration r \<noteq> []"
    and rg: "digits_val (rec_time r) < 2 ^ 63" "digits_val (rec_duration r) < 2 ^ (IntSize - 1)"
    unfolding record_ok_def by blast+
  have eq: "logical_line tok r
      = '': '' @ rec_time r @ '':'' @ rec_duration r @ '';'' @ join_with tok (rec_pieces r)"
    by (simp add: logical_line_def record_header_def)
  show ?thesis
    unfolding eq using valid_logical [OF a, of "join_with tok (rec_pieces r)"] rg
    by (simp add: fields_in_range_def entry_of_line_def record_entry_def)
qed

lemma set_join_with: "set (join_with sep ps) \<subseteq> set sep \<union> \<Union> (set ` set ps)"
  by (induction sep ps rule: join_with.induct) auto

lemma header_no_newline:
  "list_all is_digit (rec_time r) \<Longrightarrow> list_all is_digit (rec_duration r) \<Longrightarrow>
   newline \<notin> set (record_header r)"
proof -
  assume a: "list_all is_digit (rec_time r)" "list_all is_digit (rec_duration r)"
  have "newline \<notin> set (rec_time r)" "newline \<notin> set (rec_duration r)"
    using a digit_not_newline by (auto simp: list_all_iff)
  moreover have "newline \<notin> set '': ''" "newline \<notin> set '':''" "newline \<notin> set '';''"
    by (simp_all add: newline_def)
  ultimately show ?thesis unfolding record_header_def by (simp only: set_append Un_iff) blast
qed

lemma logical_line_no_newline:
  assumes "record_ok tok r" "newline \<notin> set tok"
  shows "newline \<notin> set (logical_line tok r)"
proof -
  from assms(1) have a: "list_all is_digit (rec_time r)" "list_all is_digit (rec_duration r)"
    "\<forall>p \<in> set (rec_pieces r). newline \<notin> set p"
    unfolding record_ok_def by blast+
  have h: "newline \<notin> set (record_header r)" using a(1,2) by (rule header_no_newline)
  have "newline \<notin> set (join_with tok (rec_pieces r))"
    using set_join_with [of tok "rec_pieces r"] a(3) assms(2) by auto
  then show ?thesis using h by (simp add: logical_line_def)
qed

lemma backslash_not_newline: "backslash \<noteq> newline"
  by (simp add: newline_def backslash_def)

lemma cont_lines_no_newline:
  "\<forall>p \<in> set ps. newline \<notin> set p \<Longrightarrow> \<forall>l \<in> set (cont_lines ps). newline \<notin> set l"
proof (induction ps rule: cont_lines.induct)
  case 1
  show ?case by simp
next
  case (2 p)
  then show ?case by simp
next
  case (3 p q ps)
  have "newline \<notin> set (p @ [backslash])"
    using 3(2) backslash_not_newline by auto
  moreover have "\<forall>l \<in> set (cont_lines (q # ps)). newline \<notin> set l"
    using 3 by simp
  ultimately show ?case by simp
qed

lemma physical_lines_no_newline:
  assumes "record_ok tok r"
  shows "\<forall>l \<in> set (physical_lines r). newline \<notin> set l"
proof -
  from assms have a: "list_all is_digit (rec_time r)" "list_all is_digit (rec_duration r)"
    and b: "\<forall>p \<in> set (rec_pieces r). newline \<notin> set p" and c: "rec_pieces r \<noteq> []"
    unfolding record_ok_def by blast+
  have h: "newline \<notin> set (record_header r)" using a by (rule header_no_newline)
  obtain p ps where ps: "rec_pieces r = p # ps" using c by (cases "rec_pieces r") auto
  have "newline \<notin> set p" "\<forall>q \<in> set ps. newline \<notin> set q" using b unfolding ps by simp_all
  then have "\<forall>q \<in> set ((record_header r @ p) # ps). newline \<notin> set q"
    using h by simp
  then have "\<forall>l \<in> set (cont_lines ((record_header r @ p) # ps)). newline \<notin> set l"
    by (rule cont_lines_no_newline)
  then show ?thesis unfolding physical_lines_def ps by simp
qed

lemma HasSuffix_header:
  "HasSuffix_backslash (record_header r @ p) \<longleftrightarrow> HasSuffix_backslash p"
  by (cases "p = []") (auto simp: HasSuffix_backslash_def record_header_def backslash_def)

lemma replace_loop_physical:
  assumes "record_ok tok r" "rest \<noteq> []"
  shows "replace_loop (physical_lines r @ rest) tok
           = logical_line tok r @ [newline] @ replace_loop rest tok"
proof -
  from assms(1) have a: "rec_pieces r \<noteq> []"
    "\<forall>l \<in> set (tl (cont_lines (rec_pieces r))). \<not> timestampRegex l"
    "\<not> HasSuffix_backslash (last (rec_pieces r))"
    unfolding record_ok_def by blast+
  obtain p ps where ps: "rec_pieces r = p # ps" using a(1) by (cases "rec_pieces r") auto
  let ?qs = "(record_header r @ p) # ps"
  have t: "\<forall>l \<in> set (tl (cont_lines ?qs)). \<not> timestampRegex l"
    using a(2) unfolding ps tl_cont_lines_head by simp
  have l: "\<not> HasSuffix_backslash (last ?qs)"
    using a(3) unfolding ps by (cases ps) (auto simp: HasSuffix_header)
  have "replace_loop (cont_lines ?qs @ rest) tok
      = join_with tok ?qs @ [newline] @ replace_loop rest tok"
    using replace_loop_record [OF _ assms(2) t l] by simp
  moreover have "join_with tok ?qs = logical_line tok r"
    unfolding logical_line_def ps by (cases ps) auto
  ultimately show ?thesis unfolding physical_lines_def ps by simp
qed

lemma replace_loop_records:
  assumes "\<forall>r \<in> set rs. record_ok tok r"
  shows "replace_loop (concat (map physical_lines rs) @ [[]]) tok
           = concat (map (\<lambda>r. logical_line tok r @ [newline]) rs)"
  using assms
proof (induction rs)
  case Nil
  show ?case by (simp add: write_line_def)
next
  case (Cons r rs)
  have "replace_loop (physical_lines r @ (concat (map physical_lines rs) @ [[]])) tok
      = logical_line tok r @ [newline]
          @ replace_loop (concat (map physical_lines rs) @ [[]]) tok"
    using Cons.prems by (intro replace_loop_physical) auto
  then show ?case using Cons by simp
qed

lemma normalize_records:
  assumes "\<forall>r \<in> set rs. record_ok tok r"
  shows "replaceMultilineCommands (concat (map record_text rs)) tok
           = concat (map (\<lambda>r. logical_line tok r @ [newline]) rs)"
proof -
  have ne: "\<forall>r \<in> set rs. rec_pieces r \<noteq> []" using assms unfolding record_ok_def by blast
  have "concat (map record_text rs)
      = concat (map (\<lambda>l. l @ [newline]) (concat (map physical_lines rs)))"
    using ne by (induction rs) (auto simp: record_text_lines)
  moreover have "\<forall>l \<in> set (concat (map physical_lines rs)). newline \<notin> set l"
    using assms physical_lines_no_newline by auto
  ultimately have "Split newline (concat (map record_text rs))
      = concat (map physical_lines rs) @ [[]]"
    using Split_lines by simp
  then show ?thesis
    unfolding replaceMultilineCommands_def using replace_loop_records [OF assms] by simp
qed

lemma process_records:
  assumes "\<forall>r \<in> set rs. record_ok tok r" "newline \<notin> set tok"
  shows "process_lines
           (Split newline (replaceMultilineCommands (concat (map record_text rs)) tok)) m
         = Inr (dedup m (map (record_entry tok) rs))"
proof -
  have nn: "\<forall>l \<in> set (map (logical_line tok) rs). newline \<notin> set l"
    using assms logical_line_no_newline by auto
  have "concat (map (\<lambda>r. logical_line tok r @ [newline]) rs)
      = concat (map (\<lambda>l. l @ [newline]) (map (logical_line tok) rs))"
    by (simp add: comp_def)
  then have sp: "Split newline (replaceMultilineCommands (concat (map record_text rs)) tok)
      = map (logical_line tok) rs @ [[]]"
    unfolding normalize_records [OF assms(1)] using Split_lines [OF nn] by simp
  have v: "\<forall>r \<in> set rs. validLineRegex (logical_line tok r) \<and>
      fields_in_range (logical_line tok r) \<and>
      entry_of_line (logical_line tok r) = record_entry tok r"
    using assms(1) logical_line_entry by blast
  have vn: "\<not> validLineRegex []" by (simp add: validLineRegex_def)
  have ir: "\<forall>l \<in> set (map (logical_line tok) rs @ [[]]).
      validLineRegex l \<longrightarrow> fields_in_range l"
    using v vn by auto
  have "filter validLineRegex (map (logical_line tok) rs) = map (logical_line tok) rs"
    using v by (simp add: filter_id_conv)
  then have f: "filter validLineRegex (map (logical_line tok) rs @ [[]])
      = map (logical_line tok) rs"
    using vn by simp
  have e: "map entry_of_line (map (logical_line tok) rs) = map (record_entry tok) rs"
    using v by simp
  show ?thesis unfolding sp process_lines_in_range [OF ir] f e ..
qed

lemma prefix_within:
  assumes "prefix tok (xs @ tok @ rest)" "xs \<noteq> []"
  shows "prefix tok (xs @ butlast tok)"
proof (cases tok rule: rev_cases)
  case Nil
  then show ?thesis by simp
next
  case (snoc bt lt)
  have "prefix (bt @ [lt]) ((xs @ bt) @ ([lt] @ rest))"
    using assms(1) unfolding snoc by simp
  then consider "prefix (bt @ [lt]) (xs @ bt)"
    | us where "bt @ [lt] = (xs @ bt) @ us"
    unfolding prefix_append by blast
  then show ?thesis
  proof cases
    case 1
    then show ?thesis unfolding snoc by simp
  next
    case 2
    then have "length (bt @ [lt]) = length ((xs @ bt) @ us)" by (rule arg_cong)
    then have "Suc (length bt) = length xs + length bt + length us" by simp
    moreover have "0 < length xs" using assms(2) by simp
    ultimately have "length us = 0" by linarith
    then have "us = []" by simp
    then have "bt @ [lt] = xs @ bt" using 2 by simp
    then have "prefix (bt @ [lt]) (xs @ bt)" by (metis prefix_order.refl)
    then show ?thesis unfolding snoc by simp
  qed
qed

lemma replace_all_piece:
  assumes "tok \<noteq> []"
  shows "\<not> sublist tok (p @ butlast tok) \<Longrightarrow>
         replace_all (p @ tok @ rest) tok new = p @ new @ replace_all rest tok new"
proof (induction p)
  case Nil
  obtain t ts where tok: "tok = t # ts" using assms by (cases tok) auto
  have "replace_all ((t # ts) @ rest) (t # ts) new = new @ replace_all rest (t # ts) new"
    by simp
  then show ?case unfolding tok by simp
next
  case (Cons c p)
  have np: "\<not> prefix tok (c # p @ tok @ rest)"
  proof
    assume "prefix tok (c # p @ tok @ rest)"
    then have "prefix tok ((c # p) @ butlast tok)"
      using prefix_within [of tok "c # p" rest] by simp
    then show False using Cons.prems by (simp add: sublist_Cons_right)
  qed
  have "\<not> sublist tok (p @ butlast tok)"
    using Cons.prems by (simp add: sublist_Cons_right)
  then have "replace_all (p @ tok @ rest) tok new = p @ new @ replace_all rest tok new"
    by (rule Cons.IH)
  then show ?case using np by simp
qed

lemma sublist_append_right: "sublist a p \<Longrightarrow> sublist a (p @ x)"
  unfolding sublist_def by (metis append.assoc)

lemma replace_all_join:
  "tok \<noteq> [] \<Longrightarrow> \<forall>p \<in> set ps. \<not> sublist tok (p @ butlast tok) \<Longrightarrow>
   replace_all (join_with tok ps) tok new = join_with new ps"
proof (induction tok ps rule: join_with.induct)
  case (1 sep)
  show ?case by simp
next
  case (2 sep p)
  then have "\<not> sublist sep p" using sublist_append_right by auto
  then show ?case by (simp add: replace_all_absent)
next
  case (3 sep p q ps)
  have "\<not> sublist sep (p @ butlast sep)" using 3(3) by simp
  then have "replace_all (p @ sep @ join_with sep (q # ps)) sep new
      = p @ new @ replace_all (join_with sep (q # ps)) sep new"
    using replace_all_piece [OF 3(2)] by blast
  moreover have "replace_all (join_with sep (q # ps)) sep new = join_with new (q # ps)"
    using 3 by simp
  ultimately show ?case by simp
qed

lemma ReplaceAll_join:
  assumes "tok \<noteq> []" "\<forall>p \<in> set ps. \<not> sublist tok (p @ butlast tok)"
  shows "ReplaceAll (join_with tok ps) tok new = join_with new ps"
  using replace_all_join [OF assms] assms(1) by (simp add: ReplaceAll_def)

lemma dec_digits: "list_all is_digit (dec n)"
proof (induction n rule: dec.induct)
  case (1 n)
  have d: "\<And>k::nat. k < 10 \<Longrightarrow> is_digit (char_of (48 + k))"
    by (simp add: is_digit_def)
  show ?case
  proof (cases "n < 10")
    case True
    then show ?thesis using d by (subst dec.simps) simp
  next
    case False
    have "n mod 10 < 10" by simp
    then have "is_digit (char_of (48 + n mod 10))" using d by blast
    then show ?thesis using False 1 by (subst dec.simps) simp
  qed
qed

lemma dec_not_Nil: "dec n \<noteq> []"
  by (subst dec.simps) simp

lemma token_shape:
  "multilineCommand_at now \<noteq> [] \<and> newline \<notin> set (multilineCommand_at now)"
proof -
  have "newline \<notin> set (dec k)" for k
    using dec_digits [of k] digit_not_newline by (auto simp: list_all_iff)
  then have "newline \<notin> set (format_d now)"
    by (simp add: format_d_def newline_def)
  then show ?thesis by (simp add: multilineCommand_at_def newline_def)
qed

lemma format_record_entry:
  assumes "record_ok tok r" "tok \<noteq> []"
  shows "format_entry tok (record_entry tok r)
    = '':'' @ pad_left 11 (format_d (Time (record_entry tok r))) @ '':''
        @ format_d (Duration (record_entry tok r)) @ '';''
        @ join_with [backslash, newline] (rec_pieces r) @ [newline]"
proof -
  have "\<forall>p \<in> set (rec_pieces r). \<not> sublist tok (p @ butlast tok)"
    using assms(1) unfolding record_ok_def by blast
  then have "ReplaceAll (join_with tok (rec_pieces r)) tok [backslash, newline]
      = join_with [backslash, newline] (rec_pieces r)"
    using assms(2) by (intro ReplaceAll_join) auto
  then show ?thesis by (simp add: format_entry_def record_entry_def)
qed

lemma dedup_member:
  assumes "e0 \<in> set es"
  shows "\<exists>e. dedup Map.empty es (Command e0) = Some e \<and> Command e = Command e0 \<and> e \<in> set es"
proof -
  have "dedup Map.empty es (Command e0) \<noteq> None"
    using assms dedup_None_iff [of es "Command e0"] by blast
  then obtain e where e: "dedup Map.empty es (Command e0) = Some e" by blast
  then obtain i where "first_latest_at es (Command e0) i" "es ! i = e"
    using dedup_Some_first_latest by blast
  then have "Command e = Command e0" "e \<in> set es"
    unfolding first_latest_at_def by auto
  then show ?thesis using e by blast
qed


lemma Split_snoc: "Split c (xs @ [c]) = Split c xs @ [[]]"
proof (induction xs)
  case Nil
  show ?case by simp
next
  case (Cons x xs)
  obtain l ls where sp: "Split c xs = l # ls"
    using Split_not_Nil [of c xs] by (cases "Split c xs") auto
  show ?case using Cons sp by simp
qed

lemma concat_ends:
  "\<forall>x \<in> set xs. x \<noteq> [] \<and> last x = c \<Longrightarrow> concat xs = [] \<or> last (concat xs) = c"
proof (induction xs)
  case Nil
  show ?case by simp
next
  case (Cons a xs)
  then have a: "a \<noteq> []" "last a = c" and r: "concat xs = [] \<or> last (concat xs) = c"
    by simp_all
  show ?case
  proof (cases "concat xs = []")
    case True
    then show ?thesis using a by simp
  next
    case False
    with r have lc: "last (concat xs) = c" by blast
    show ?thesis
      by (rule disjI2) (simp only: concat.simps last_appendR [OF False] lc)
  qed
qed

lemma loader_identity:
  assumes e: "s = [] \<or> last s = newline"
    and v: "ValidString s"
    and l: "\<forall>x \<in> set (Split newline s). length x < MaxScanTokenSize \<and> dropCR x = x"
  shows "readFileContent s = Inr s"
proof -
  have la: "last (Split newline s) = []"
  proof (cases "s = []")
    case True
    then show ?thesis by simp
  next
    case False
    then have "s = butlast s @ [newline]" using e by (metis append_butlast_last_id)
    then have "Split newline s = Split newline (butlast s) @ [[]]"
      using Split_snoc [of newline "butlast s"] by simp
    then show ?thesis by simp
  qed
  have j: "concat (map (\<lambda>x. x @ [newline]) (butlast (Split newline s))) = s"
    using Split_join [of newline s] la by simp
  have "\<forall>x \<in> set (butlast (Split newline s)). dropCR x = x"
    using l by (meson in_set_butlastD)
  then have m: "map dropCR (butlast (Split newline s)) = butlast (Split newline s)"
    by (simp add: map_idI)
  have sc: "ScanLines s = butlast (Split newline s)"
    unfolding ScanLines_def using la m by simp
  have nl: "\<not> (\<exists>x \<in> set (Split newline s). MaxScanTokenSize \<le> length x)"
    using l by (meson not_le)
  show ?thesis
    unfolding readFileContent_def sc j using nl v by (simp add: invalidUTF8_def)
qed









section \<open>Merging the output of a merge\<close>

lemma split_token_not_Nil: "split_token tok s \<noteq> []"
  by (induction tok s rule: split_token.induct) (auto split: list.splits)

lemma join_with_Cons: "join_with sep ((c # p) # ps) = c # join_with sep (p # ps)"
  by (cases ps) auto

lemma join_with_Nil_Cons: "ps \<noteq> [] \<Longrightarrow> join_with sep ([] # ps) = sep @ join_with sep ps"
  by (cases ps) auto

lemma replace_all_split:
  "replace_all s tok new = join_with new (split_token tok s)"
proof (induction s tok new rule: replace_all.induct)
  case (1 old new)
  show ?case by simp
next
  case (2 c cs old new)
  show ?case
  proof (cases "old \<noteq> [] \<and> prefix old (c # cs)")
    case True
    then show ?thesis
      using 2(1) split_token_not_Nil [of old "drop (length old - 1) cs"]
      by (simp add: join_with_Nil_Cons)
  next
    case False
    obtain p ps where sp: "split_token old cs = p # ps"
      using split_token_not_Nil [of old cs] by (cases "split_token old cs") auto
    have "replace_all (c # cs) old new = c # replace_all cs old new" using False by auto
    also have "\<dots> = c # join_with new (p # ps)" using 2(2) False sp by auto
    also have "\<dots> = join_with new ((c # p) # ps)" by (simp add: join_with_Cons)
    also have "\<dots> = join_with new (split_token old (c # cs))" using False sp by auto
    finally show ?thesis .
  qed
qed

lemma join_split: "tok \<noteq> [] \<Longrightarrow> join_with tok (split_token tok s) = s"
proof (induction tok s rule: split_token.induct)
  case (1 tok)
  show ?case by simp
next
  case (2 tok c cs)
  show ?case
  proof (cases "prefix tok (c # cs)")
    case True
    then obtain r where r: "c # cs = tok @ r" by (auto simp: prefix_def)
    have "drop (length tok - 1) cs = drop (length tok) (c # cs)"
      using 2(3) by (cases tok) auto
    then have d: "drop (length tok - 1) cs = r" using r by simp
    have "join_with tok (split_token tok (c # cs))
        = tok @ join_with tok (split_token tok (drop (length tok - 1) cs))"
      using True 2(3) split_token_not_Nil by (simp add: join_with_Nil_Cons)
    also have "\<dots> = tok @ r" using 2(1) True 2(3) d by simp
    finally show ?thesis using r by simp
  next
    case False
    obtain p ps where sp: "split_token tok cs = p # ps"
      using split_token_not_Nil [of tok cs] by (cases "split_token tok cs") auto
    have "join_with tok (split_token tok (c # cs)) = join_with tok ((c # p) # ps)"
      using False sp by simp
    also have "\<dots> = c # join_with tok (p # ps)" by (simp add: join_with_Cons)
    also have "\<dots> = c # cs" using 2(2) False 2(3) sp by simp
    finally show ?thesis .
  qed
qed

lemma split_token_absent: "\<not> sublist tok s \<Longrightarrow> split_token tok s = [s]"
  by (induction s) (auto simp: sublist_Cons_right)

lemma split_token_piece:
  assumes "tok \<noteq> []"
  shows "\<not> sublist tok (p @ butlast tok) \<Longrightarrow>
         split_token tok (p @ tok @ rest) = p # split_token tok rest"
proof (induction p)
  case Nil
  obtain t ts where tok: "tok = t # ts" using assms by (cases tok) auto
  have "split_token (t # ts) ((t # ts) @ rest) = [] # split_token (t # ts) rest"
    by simp
  then show ?case unfolding tok by simp
next
  case (Cons c p)
  have np: "\<not> prefix tok (c # p @ tok @ rest)"
  proof
    assume "prefix tok (c # p @ tok @ rest)"
    then have "prefix tok ((c # p) @ butlast tok)"
      using prefix_within [of tok "c # p" rest] by simp
    then show False using Cons.prems by (simp add: sublist_Cons_right)
  qed
  have "\<not> sublist tok (p @ butlast tok)"
    using Cons.prems by (simp add: sublist_Cons_right)
  then have "split_token tok (p @ tok @ rest) = p # split_token tok rest"
    by (rule Cons.IH)
  then show ?case using np by simp
qed

lemma split_join:
  "tok \<noteq> [] \<Longrightarrow> ps \<noteq> [] \<Longrightarrow> \<forall>p \<in> set ps. \<not> sublist tok (p @ butlast tok) \<Longrightarrow>
   split_token tok (join_with tok ps) = ps"
proof (induction tok ps rule: join_with.induct)
  case (1 sep)
  then show ?case by simp
next
  case (2 sep p)
  then have "\<not> sublist sep p" using sublist_append_right by auto
  then show ?case by (simp add: split_token_absent)
next
  case (3 sep p q ps)
  have "\<not> sublist sep (p @ butlast sep)" using 3(4) by simp
  then have "split_token sep (p @ sep @ join_with sep (q # ps))
      = p # split_token sep (join_with sep (q # ps))"
    using split_token_piece [OF 3(2)] by blast
  moreover have "split_token sep (join_with sep (q # ps)) = q # ps"
    using 3 by simp
  ultimately show ?case by simp
qed

lemma digits_val_snoc: "digits_val (xs @ [c]) = 10 * digits_val xs + digit_val c"
  by (simp add: digits_val_def)

lemma digit_val_char: "(k::nat) < 10 \<Longrightarrow> digit_val (char_of (48 + k)) = k"
  by (simp add: digit_val_def)

lemma digits_val_dec: "digits_val (dec n) = n"
proof (induction n rule: dec.induct)
  case (1 n)
  show ?case
  proof (cases "n < 10")
    case True
    then have "dec n = [char_of (48 + n)]" by (subst dec.simps) simp
    then show ?thesis using True digit_val_char by (simp add: digits_val_def)
  next
    case False
    then have d: "dec n = dec (n div 10) @ [char_of (48 + n mod 10)]"
      by (subst dec.simps) simp
    have "digits_val (dec n) = 10 * digits_val (dec (n div 10)) + digit_val (char_of (48 + n mod 10))"
      unfolding d by (rule digits_val_snoc)
    also have "\<dots> = 10 * (n div 10) + n mod 10"
      using 1 False digit_val_char [of "n mod 10"] by simp
    finally show ?thesis by simp
  qed
qed

lemma length_dec:
  "10 ^ k \<le> n \<Longrightarrow> n < 10 ^ Suc k \<Longrightarrow> length (dec n) = Suc k"
proof (induction k arbitrary: n)
  case 0
  then have "n < 10" by simp
  then have "dec n = [char_of (48 + n)]" by (subst dec.simps) simp
  then show ?case by simp
next
  case (Suc k)
  have ge: "10 \<le> n"
  proof -
    have a: "(10::nat) \<le> 10 * 10 ^ k" by simp
    have b: "10 * 10 ^ k \<le> n" using Suc.prems(1) by simp
    show ?thesis using a b by (rule order_trans)
  qed
  then have d: "dec n = dec (n div 10) @ [char_of (48 + n mod 10)]"
    by (subst dec.simps) simp
  have lo: "10 ^ k \<le> n div 10"
  proof -
    have "10 * 10 ^ k \<le> n" using Suc.prems(1) by simp
    then show ?thesis by (simp add: less_eq_div_iff_mult_less_eq)
  qed
  have hi: "n div 10 < 10 ^ Suc k"
  proof -
    have "n < 10 * 10 ^ Suc k" using Suc.prems(2) by simp
    then show ?thesis by (simp add: less_mult_imp_div_less mult.commute)
  qed
  show ?case unfolding d using Suc.IH [OF lo hi] by simp
qed

lemma format_d_timestamp:
  assumes "1000000000 \<le> t" "t \<le> 9999999999"
  shows "pad_left 11 (format_d t) = CHR '' '' # format_d t \<and>
         list_all is_digit (format_d t) \<and> length (format_d t) = 10 \<and>
         int (digits_val (format_d t)) = t"
proof -
  have nn: "\<not> t < 0" using assms by simp
  have f: "format_d t = dec (nat t)" using nn by (simp add: format_d_def)
  have "10 ^ 9 \<le> nat t" "nat t < 10 ^ Suc 9" using assms by simp_all
  then have l: "length (dec (nat t)) = Suc 9" by (rule length_dec)
  have "pad_left 11 (dec (nat t)) = CHR '' '' # dec (nat t)"
    unfolding pad_left_def l by simp
  then show ?thesis unfolding f using l dec_digits digits_val_dec nn by simp
qed

lemma format_d_duration:
  assumes "0 \<le> d"
  shows "list_all is_digit (format_d d) \<and> format_d d \<noteq> [] \<and> int (digits_val (format_d d)) = d"
proof -
  have f: "format_d d = dec (nat d)" using assms by (simp add: format_d_def)
  show ?thesis unfolding f using dec_digits dec_not_Nil digits_val_dec assms by simp
qed

lemma rerun_safe_record_ok:
  assumes "rerun_safe tok1 tok2 e"
  shows "record_ok tok2 (written_form tok1 e)"
proof -
  from assms have t: "1000000000 \<le> Time e" "Time e \<le> 9999999999"
    and d: "0 \<le> Duration e" "Duration e < 2 ^ (IntSize - 1)"
    and p: "\<forall>p \<in> set (split_token tok1 (Command e)).
        newline \<notin> set p \<and> \<not> sublist tok2 (p @ butlast tok2)"
      "\<forall>l \<in> set (tl (cont_lines (split_token tok1 (Command e)))). \<not> timestampRegex l"
      "\<not> HasSuffix_backslash (last (split_token tok1 (Command e)))"
    unfolding rerun_safe_def by blast+
  note ft = format_d_timestamp [OF t]
  note fd = format_d_duration [OF d(1)]
  have tv: "digits_val (format_d (Time e)) < 2 ^ 63"
  proof -
    have "int (digits_val (format_d (Time e))) < 2 ^ 63" using ft t(2) by simp
    then show ?thesis by (metis of_nat_less_iff of_nat_numeral of_nat_power)
  qed
  have dv: "digits_val (format_d (Duration e)) < 2 ^ (IntSize - 1)"
  proof -
    have "int (digits_val (format_d (Duration e))) < 2 ^ (IntSize - 1)" using fd d(2) by simp
    then show ?thesis by (metis of_nat_less_iff of_nat_numeral of_nat_power)
  qed
  show ?thesis
    unfolding record_ok_def written_form_def
    using ft fd tv dv p split_token_not_Nil [of tok1 "Command e"] by simp
qed

lemma rerun_record_text:
  assumes "rerun_safe tok1 tok2 e" "tok1 \<noteq> []"
  shows "record_text (written_form tok1 e) = format_entry tok1 e"
proof -
  from assms have t: "1000000000 \<le> Time e" "Time e \<le> 9999999999"
    unfolding rerun_safe_def by blast+
  have pl: "pad_left 11 (format_d (Time e)) = CHR '' '' # format_d (Time e)"
    using format_d_timestamp [OF t] by blast
  have "ReplaceAll (Command e) tok1 [backslash, newline]
      = join_with [backslash, newline] (split_token tok1 (Command e))"
  proof (cases "tok1 = [backslash, newline]")
    case True
    then show ?thesis using join_split [OF assms(2), of "Command e"] by (simp add: ReplaceAll_def)
  next
    case False
    then show ?thesis using assms(2) by (simp add: ReplaceAll_def replace_all_split)
  qed
  then show ?thesis
    by (simp add: record_text_def record_header_def written_form_def format_entry_def pl)
qed

lemma rerun_record_entry:
  assumes "rerun_safe tok1 tok2 e"
  shows "record_entry tok2 (written_form tok1 e) = rerun_entry tok1 tok2 e"
proof -
  from assms have t: "1000000000 \<le> Time e" "Time e \<le> 9999999999" and d: "0 \<le> Duration e"
    unfolding rerun_safe_def by blast+
  show ?thesis
    using format_d_timestamp [OF t] format_d_duration [OF d]
    by (simp add: record_entry_def written_form_def rerun_entry_def)
qed

lemma rerun_format:
  assumes "rerun_safe tok1 tok2 e" "tok1 \<noteq> []" "tok2 \<noteq> []"
  shows "format_entry tok2 (rerun_entry tok1 tok2 e) = format_entry tok1 e"
proof -
  have ok: "record_ok tok2 (written_form tok1 e)" using assms(1) by (rule rerun_safe_record_ok)
  from assms have t: "1000000000 \<le> Time e" "Time e \<le> 9999999999"
    unfolding rerun_safe_def by blast+
  have pl: "pad_left 11 (format_d (Time e)) = CHR '' '' # format_d (Time e)"
    using format_d_timestamp [OF t] by blast
  have "format_entry tok2 (rerun_entry tok1 tok2 e)
      = '':'' @ pad_left 11 (format_d (Time e)) @ '':'' @ format_d (Duration e) @ '';''
          @ join_with [backslash, newline] (split_token tok1 (Command e)) @ [newline]"
    using format_record_entry [OF ok assms(3)]
    unfolding rerun_record_entry [OF assms(1)]
    by (simp add: rerun_entry_def written_form_def)
  also have "\<dots> = record_text (written_form tok1 e)"
    by (simp add: record_text_def record_header_def written_form_def pl)
  finally show ?thesis using rerun_record_text [OF assms(1,2)] by simp
qed

lemma rerun_command_inj:
  assumes "rerun_safe tok1 tok2 e1" "rerun_safe tok1 tok2 e2" "tok1 \<noteq> []" "tok2 \<noteq> []"
    and "Command (rerun_entry tok1 tok2 e1) = Command (rerun_entry tok1 tok2 e2)"
  shows "Command e1 = Command e2"
proof -
  let ?q1 = "split_token tok1 (Command e1)" and ?q2 = "split_token tok1 (Command e2)"
  have c1: "\<forall>p \<in> set ?q1. \<not> sublist tok2 (p @ butlast tok2)"
    and c2: "\<forall>p \<in> set ?q2. \<not> sublist tok2 (p @ butlast tok2)"
    using assms(1,2) unfolding rerun_safe_def by blast+
  have "join_with tok2 ?q1 = join_with tok2 ?q2"
    using assms(5) by (simp add: rerun_entry_def)
  then have "split_token tok2 (join_with tok2 ?q1) = split_token tok2 (join_with tok2 ?q2)"
    by simp
  then have "?q1 = ?q2"
    using split_join [OF assms(4) split_token_not_Nil c1]
      split_join [OF assms(4) split_token_not_Nil c2] by simp
  then have "join_with tok1 ?q1 = join_with tok1 ?q2" by simp
  then show ?thesis using join_split [OF assms(3)] by simp
qed

lemma keyed_upsert: "keyed m \<Longrightarrow> keyed (upsert m e)"
  by (auto simp: keyed_def upsert_def split: option.splits if_splits)

lemma keyed_process_lines: "process_lines ls m = Inr m' \<Longrightarrow> keyed m \<Longrightarrow> keyed m'"
proof (induction ls arbitrary: m)
  case Nil
  then show ?case by simp
next
  case (Cons l ls)
  show ?case
  proof (cases "l = [] \<or> \<not> validLineRegex l")
    case True
    then show ?thesis using Cons by auto
  next
    case False
    then obtain e where e: "parseHistoryLine l = Inr e"
      using Cons.prems(1) by (cases "parseHistoryLine l") auto
    then have "process_lines ls (upsert m e) = Inr m'" using Cons.prems(1) False by simp
    then show ?thesis using Cons.IH keyed_upsert [OF Cons.prems(2)] by blast
  qed
qed

lemma keyed_processHistoryFile:
  "processHistoryFile f tok m = Inr m' \<Longrightarrow> keyed m \<Longrightarrow> keyed m'"
  unfolding processHistoryFile_def
  by (auto split: option.splits sum.splits dest: keyed_process_lines)

lemma keyed_process_files: "process_files fs tok m = Inr m' \<Longrightarrow> keyed m \<Longrightarrow> keyed m'"
proof (induction fs arbitrary: m)
  case Nil
  then show ?case by simp
next
  case (Cons f fs)
  then obtain m1 where m1: "processHistoryFile f tok m = Inr m1" "process_files fs tok m1 = Inr m'"
    by (cases "processHistoryFile f tok m") auto
  then show ?case using Cons.IH keyed_processHistoryFile [OF m1(1) Cons.prems(2)] by blast
qed

lemma keyed_empty: "keyed Map.empty"
  by (simp add: keyed_def)

lemma dedup_distinct:
  assumes "distinct (map Command es)" "e \<in> set es"
  shows "dedup Map.empty es (Command e) = Some e"
proof -
  from dedup_member [OF assms(2)] obtain e' where
    e': "dedup Map.empty es (Command e) = Some e'" "Command e' = Command e" "e' \<in> set es"
    by blast
  have "inj_on Command (set es)" using assms(1) by (simp add: distinct_map)
  then have "e' = e" using e'(2,3) assms(2) by (meson inj_onD)
  then show ?thesis using e'(1) by simp
qed

lemma dedup_dom: "dom (dedup Map.empty es) = Command ` set es"
proof
  show "dom (dedup Map.empty es) \<subseteq> Command ` set es"
  proof
    fix k assume "k \<in> dom (dedup Map.empty es)"
    then have "dedup Map.empty es k \<noteq> None" by blast
    then show "k \<in> Command ` set es" using dedup_None_iff [of es k] by auto
  qed
  show "Command ` set es \<subseteq> dom (dedup Map.empty es)"
  proof
    fix k assume "k \<in> Command ` set es"
    then obtain e where "e \<in> set es" "k = Command e" by blast
    then show "k \<in> dom (dedup Map.empty es)" using dedup_member by blast
  qed
qed

lemma emitted_entries_keyed:
  assumes "emitted_entries m es" "keyed m"
  shows "distinct (map Command es)"
proof -
  from assms(1) obtain ks where ks: "distinct ks" "set ks = dom m"
    "mset es = mset (map (\<lambda>k. the (m k)) ks)"
    unfolding emitted_entries_def range_order_def sort_Slice_Time_def by blast
  have "\<forall>k \<in> set ks. Command (the (m k)) = k"
    using ks(2) assms(2) unfolding keyed_def by auto
  then have "map (\<lambda>k. Command (the (m k))) ks = ks" by (simp add: map_idI)
  moreover have "mset (map Command es) = mset (map (\<lambda>k. Command (the (m k))) ks)"
  proof -
    have "image_mset Command (mset es) = image_mset Command (mset (map (\<lambda>k. the (m k)) ks))"
      by (simp only: ks(3))
    then show ?thesis by (simp add: image_mset.compositionality comp_def)
  qed
  ultimately have "mset (map Command es) = mset ks" by simp
  then show ?thesis using ks(1) mset_eq_imp_distinct_iff by blast
qed

lemma emitted_entries_times:
  assumes "emitted_entries m es" "inj_on (\<lambda>k. Time (the (m k))) (dom m)"
  shows "distinct (map Time es)"
proof -
  from assms(1) obtain ks where ks: "distinct ks" "set ks = dom m"
    "mset es = mset (map (\<lambda>k. the (m k)) ks)"
    unfolding emitted_entries_def range_order_def sort_Slice_Time_def by blast
  have "distinct (map (\<lambda>k. Time (the (m k))) ks)"
    using ks assms(2) by (simp add: distinct_map)
  moreover have "mset (map Time es) = mset (map (\<lambda>k. Time (the (m k))) ks)"
  proof -
    have "image_mset Time (mset es) = image_mset Time (mset (map (\<lambda>k. the (m k)) ks))"
      by (simp only: ks(3))
    then show ?thesis by (simp add: image_mset.compositionality comp_def)
  qed
  ultimately show ?thesis using mset_eq_imp_distinct_iff by blast
qed

lemma emitted_from_list:
  assumes dc: "distinct (map Command es)" and st: "sorted (map Time es)"
  shows "emitted_entries (dedup Map.empty es) es"
proof -
  let ?m = "dedup Map.empty es"
  have r: "range_order ?m (map Command es)"
    unfolding range_order_def using dc dedup_dom by simp
  have "\<forall>e \<in> set es. the (?m (Command e)) = e"
    using dedup_distinct [OF dc] by simp
  then have "map (\<lambda>k. the (?m k)) (map Command es) = es"
    by (simp add: map_idI)
  then have "sort_Slice_Time (map (\<lambda>k. the (?m k)) (map Command es)) es"
    unfolding sort_Slice_Time_def using st by (simp add: sorted_map not_less)
  then show ?thesis unfolding emitted_entries_def using r by blast
qed

lemma dedup_times_inj:
  assumes dc: "distinct (map Command es)" and dt: "distinct (map Time es)"
  shows "inj_on (\<lambda>k. Time (the (dedup Map.empty es k))) (dom (dedup Map.empty es))"
proof (rule inj_onI)
  fix k1 k2
  assume k1: "k1 \<in> dom (dedup Map.empty es)" and k2: "k2 \<in> dom (dedup Map.empty es)"
    and eq: "Time (the (dedup Map.empty es k1)) = Time (the (dedup Map.empty es k2))"
  from k1 k2 obtain a b where a: "a \<in> set es" "k1 = Command a" and b: "b \<in> set es" "k2 = Command b"
    unfolding dedup_dom by blast
  have "Time a = Time b"
    using eq dedup_distinct [OF dc a(1)] dedup_distinct [OF dc b(1)] a(2) b(2) by simp
  moreover have "inj_on Time (set es)" using dt by (simp add: distinct_map)
  ultimately have "a = b" using a(1) b(1) by (meson inj_onD)
  then show "k1 = k2" using a(2) b(2) by simp
qed

lemma format_entry_ends: "format_entry tok e \<noteq> [] \<and> last (format_entry tok e) = newline"
  by (simp add: format_entry_def)

lemma rerun_fixed_point:
  assumes em: "emitted_entries commands es" and ky: "keyed commands"
    and safe: "\<forall>e \<in> ran commands. rerun_safe (multilineCommand_at now1) (multilineCommand_at now2) e"
    and times: "inj_on (\<lambda>k. Time (the (commands k))) (dom commands)"
    and out: "out = concat (map (format_entry (multilineCommand_at now1)) es)"
    and valid: "ValidString out"
    and lines: "\<forall>l \<in> set (Split newline out). length l < MaxScanTokenSize \<and> dropCR l = l"
  shows "main_output [Some out] (multilineCommand_at now2) out \<and>
         (\<forall>out'. main_output [Some out] (multilineCommand_at now2) out' \<longrightarrow> out' = out)"
proof -
  let ?t1 = "multilineCommand_at now1" and ?t2 = "multilineCommand_at now2"
  let ?rs = "map (written_form ?t1) es"
  let ?es2 = "map (rerun_entry ?t1 ?t2) es"
  let ?m2 = "dedup Map.empty ?es2"
  have t1: "?t1 \<noteq> []" and t2: "?t2 \<noteq> []" "newline \<notin> set ?t2"
    using token_shape by blast+
  have se: "set es = ran commands" using em by (rule emitted_entries_set)
  have sf: "\<forall>e \<in> set es. rerun_safe ?t1 ?t2 e" using safe se by simp
  have ok: "\<forall>r \<in> set ?rs. record_ok ?t2 r" using sf rerun_safe_record_ok by auto
  have tx: "out = concat (map record_text ?rs)"
  proof -
    have "\<forall>e \<in> set es. record_text (written_form ?t1 e) = format_entry ?t1 e"
      using sf rerun_record_text [OF _ t1] by blast
    then have "map (format_entry ?t1) es = map record_text ?rs"
      by simp
    then show ?thesis unfolding out by (rule arg_cong)
  qed
  have "\<forall>e \<in> set es. record_entry ?t2 (written_form ?t1 e) = rerun_entry ?t1 ?t2 e"
    using sf rerun_record_entry by blast
  then have en: "map (record_entry ?t2) ?rs = ?es2"
    by simp
  have "\<forall>e \<in> set es. format_entry ?t2 (rerun_entry ?t1 ?t2 e) = format_entry ?t1 e"
    using sf rerun_format [OF _ t1 t2(1)] by blast
  then have fm: "map (format_entry ?t2) ?es2 = map (format_entry ?t1) es"
    by simp
  have ends: "out = [] \<or> last out = newline"
    unfolding out using concat_ends [of "map (format_entry ?t1) es" newline] format_entry_ends
    by simp
  have rd: "readFileContent out = Inr out"
    using ends valid lines by (rule loader_identity)
  have "process_lines
        (Split newline (replaceMultilineCommands (concat (map record_text ?rs)) ?t2)) Map.empty
      = Inr (dedup Map.empty (map (record_entry ?t2) ?rs))"
    using ok t2(2) by (rule process_records)
  then have pl: "process_lines (Split newline (replaceMultilineCommands out ?t2)) Map.empty
      = Inr ?m2"
    unfolding en tx [symmetric] .
  have pf: "process_files [Some out] ?t2 Map.empty = Inr ?m2"
    using rd pl by (simp add: processHistoryFile_def)
  have dc1: "distinct (map Command es)" using em ky by (rule emitted_entries_keyed)
  have dt1: "distinct (map Time es)" using em times by (rule emitted_entries_times)
  have st1: "sorted (map Time es)"
    using em sort_Slice_Time_sorted unfolding emitted_entries_def by blast
  have tm: "map Time ?es2 = map Time es" by (simp add: rerun_entry_def)
  have dc2: "distinct (map Command ?es2)"
  proof -
    have d: "distinct es" and i: "inj_on Command (set es)"
      using dc1 by (simp_all add: distinct_map)
    have "inj_on (\<lambda>e. Command (rerun_entry ?t1 ?t2 e)) (set es)"
    proof (rule inj_onI)
      fix a b assume a: "a \<in> set es" and b: "b \<in> set es"
        and eq: "Command (rerun_entry ?t1 ?t2 a) = Command (rerun_entry ?t1 ?t2 b)"
      have "Command a = Command b"
        using rerun_command_inj [OF _ _ t1 t2(1) eq] sf a b by blast
      then show "a = b" using i a b by (meson inj_onD)
    qed
    then have "distinct (map (\<lambda>e. Command (rerun_entry ?t1 ?t2 e)) es)"
      using d by (simp add: distinct_map)
    then show ?thesis by (simp add: comp_def)
  qed
  have em2: "emitted_entries ?m2 ?es2"
    using dc2 st1 unfolding tm [symmetric] by (rule emitted_from_list)
  have o2: "out = concat (map (format_entry ?t2) ?es2)" unfolding fm out ..
  have "outputMergedCommands ?m2 ?t2 out"
    unfolding outputMergedCommands_def using em2 o2 by blast
  then have 1: "main_output [Some out] ?t2 out" using main_output_iff [OF pf] by blast
  have ij: "inj_on (\<lambda>k. Time (the (?m2 k))) (dom ?m2)"
    using dc2 dt1 unfolding tm [symmetric] by (rule dedup_times_inj)
  have 2: "out' = out" if "main_output [Some out] ?t2 out'" for out'
  proof -
    from that obtain es' where es': "emitted_entries ?m2 es'"
      "out' = concat (map (format_entry ?t2) es')"
      unfolding main_output_iff [OF pf] outputMergedCommands_def by blast
    have "es' = ?es2" using ij es'(1) em2 by (rule emitted_entries_unique)
    then show ?thesis using es'(2) o2 by simp
  qed
  show ?thesis using 1 2 by blast
qed

text \<open>
  Claim C7 says that the output of a run, fed back as the only input file, comes out
  byte for byte. A record whose command ends in a literal backslash (kept because a
  timestamp line followed it in the input) may be printed last; read back, its
  backslash stands before the empty last line, is taken for a continuation, and the
  second output ends in one more line feed.
\<close>

theorem rerun_on_own_output_counterexample:
  "main_output
      [Some ('': 1234567895:0;foo'' @ [backslash, newline] @ '': 1234567890:0;bar'' @ [newline])]
      (multilineCommand_at 1700000000)
      ('': 1234567890:0;bar'' @ [newline] @ '': 1234567895:0;foo'' @ [backslash, newline]) \<and>
   main_output
      [Some ('': 1234567890:0;bar'' @ [newline] @ '': 1234567895:0;foo'' @ [backslash, newline])]
      (multilineCommand_at 1700000060)
      ('': 1234567890:0;bar'' @ [newline] @ '': 1234567895:0;foo''
         @ [backslash, newline, newline]) \<and>
   \<not> main_output
      [Some ('': 1234567890:0;bar'' @ [newline] @ '': 1234567895:0;foo'' @ [backslash, newline])]
      (multilineCommand_at 1700000060)
      ('': 1234567890:0;bar'' @ [newline] @ '': 1234567895:0;foo'' @ [backslash, newline])"
proof -
  let ?in1 = "'': 1234567895:0;foo'' @ [backslash, newline] @ '': 1234567890:0;bar'' @ [newline]"
  let ?o1 = "'': 1234567890:0;bar'' @ [newline] @ '': 1234567895:0;foo'' @ [backslash, newline]"
  let ?o2 = "'': 1234567890:0;bar'' @ [newline] @ '': 1234567895:0;foo''
         @ [backslash, newline, newline]"
  let ?t1 = "multilineCommand_at 1700000000"
  let ?t2 = "multilineCommand_at 1700000060"
  let ?bar = "\<lparr>Command = ''bar'', Time = 1234567890, Duration = 0\<rparr>"
  let ?foo1 = "\<lparr>Command = ''foo'' @ [backslash], Time = 1234567895, Duration = 0\<rparr>"
  let ?foo2 = "\<lparr>Command = ''foo'' @ ?t2, Time = 1234567895, Duration = 0\<rparr>"
  let ?m1 = "Map.empty(''foo'' @ [backslash] \<mapsto> ?foo1, ''bar'' \<mapsto> ?bar)"
  let ?m2 = "Map.empty(''bar'' \<mapsto> ?bar, ''foo'' @ ?t2 \<mapsto> ?foo2)"
  have p1: "process_files [Some ?in1] ?t1 Map.empty = Inr ?m1"
    by (simp add: pipeline_defs string_defs utf8_defs)
  have r1: "range_order ?m1 [''foo'' @ [backslash], ''bar'']"
    by (auto simp: range_order_def)
  have s1: "sort_Slice_Time (map (\<lambda>k. the (?m1 k)) [''foo'' @ [backslash], ''bar'']) [?bar, ?foo1]"
    by (simp add: sort_Slice_Time_def)
  have f1: "?o1 = concat (map (format_entry ?t1) [?bar, ?foo1])"
    by (simp add: pipeline_defs string_defs)
  have "outputMergedCommands ?m1 ?t1 ?o1"
    unfolding outputMergedCommands_def emitted_entries_def using r1 s1 f1 by blast
  then have a: "main_output [Some ?in1] ?t1 ?o1" using main_output_iff [OF p1] by blast
  have p2: "process_files [Some ?o1] ?t2 Map.empty = Inr ?m2"
    by (simp add: pipeline_defs string_defs utf8_defs)
  have r2: "range_order ?m2 [''bar'', ''foo'' @ ?t2]"
    by (auto simp: range_order_def)
  have s2: "sort_Slice_Time (map (\<lambda>k. the (?m2 k)) [''bar'', ''foo'' @ ?t2]) [?bar, ?foo2]"
    by (simp add: sort_Slice_Time_def)
  have e2: "emitted_entries ?m2 [?bar, ?foo2]"
    unfolding emitted_entries_def using r2 s2 by blast
  have f2: "?o2 = concat (map (format_entry ?t2) [?bar, ?foo2])"
    by (simp add: pipeline_defs string_defs)
  have "outputMergedCommands ?m2 ?t2 ?o2"
    unfolding outputMergedCommands_def using e2 f2 by blast
  then have b: "main_output [Some ?o1] ?t2 ?o2" using main_output_iff [OF p2] by blast
  have ij: "inj_on (\<lambda>k. Time (the (?m2 k))) (dom ?m2)"
    by (simp add: multilineCommand_at_def)
  have c: "\<not> main_output [Some ?o1] ?t2 ?o1"
  proof
    assume "main_output [Some ?o1] ?t2 ?o1"
    then obtain es where es: "emitted_entries ?m2 es" "?o1 = concat (map (format_entry ?t2) es)"
      unfolding main_output_iff [OF p2] outputMergedCommands_def by blast
    have "es = [?bar, ?foo2]" using ij es(1) e2 by (rule emitted_entries_unique)
    then have "?o1 = ?o2" using es(2) f2 by simp
    then show False by simp
  qed
  show ?thesis using a b c by blast
qed

text \<open>
  Claim C7, amended. Take a run and its output, and a later run (with its own
  placeholder) on that output as the only input file. When every retained timestamp has
  exactly ten digits and no two retained records share one, every duration is in range,
  no continuation line of a retained command holds the timestamp pattern, no command
  ends in a backslash or collides with the later placeholder, and the output is valid
  UTF-8 with lines shorter than the limit of the scanner and no carriage return at a
  line end, then the later run prints that same output, and nothing else.
\<close>

theorem rerun_on_own_output:
  assumes "process_files files (multilineCommand_at now1) Map.empty = Inr commands"
    and "main_output files (multilineCommand_at now1) out"
    and "\<forall>e \<in> ran commands. rerun_safe (multilineCommand_at now1) (multilineCommand_at now2) e"
    and "inj_on (\<lambda>k. Time (the (commands k))) (dom commands)"
    and "ValidString out"
    and "\<forall>l \<in> set (Split newline out). length l < MaxScanTokenSize \<and> dropCR l = l"
  shows "main_output [Some out] (multilineCommand_at now2) out \<and>
         (\<forall>out'. main_output [Some out] (multilineCommand_at now2) out' \<longrightarrow> out' = out)"
proof -
  have ky: "keyed commands" using keyed_process_files [OF assms(1) keyed_empty] .
  from assms(2) obtain es where es: "emitted_entries commands es"
    "out = concat (map (format_entry (multilineCommand_at now1)) es)"
    unfolding main_output_iff [OF assms(1)] outputMergedCommands_def by blast
  show ?thesis
    using rerun_fixed_point [OF es(1) ky assms(3) assms(4) es(2) assms(5) assms(6)] .
qed

theorem rerun_on_own_output_witness:
  "process_files
      [Some ('': 1234567895:0;echo a '' @ [backslash, newline] @ ''  b'' @ [newline]
               @ '': 1234567890:3;ls'' @ [newline])]
      (multilineCommand_at 1700000000) Map.empty
     = Inr (Map.empty(
         ''echo a '' @ multilineCommand_at 1700000000 @ ''  b''
           \<mapsto> \<lparr>Command = ''echo a '' @ multilineCommand_at 1700000000 @ ''  b'',
                Time = 1234567895, Duration = 0\<rparr>,
         ''ls'' \<mapsto> \<lparr>Command = ''ls'', Time = 1234567890, Duration = 3\<rparr>)) \<and>
   main_output
      [Some ('': 1234567895:0;echo a '' @ [backslash, newline] @ ''  b'' @ [newline]
               @ '': 1234567890:3;ls'' @ [newline])]
      (multilineCommand_at 1700000000)
      ('': 1234567890:3;ls'' @ [newline] @ '': 1234567895:0;echo a '' @ [backslash, newline]
         @ ''  b'' @ [newline]) \<and>
   rerun_safe (multilineCommand_at 1700000000) (multilineCommand_at 1700000060)
      \<lparr>Command = ''echo a '' @ multilineCommand_at 1700000000 @ ''  b'',
       Time = 1234567895, Duration = 0\<rparr> \<and>
   rerun_safe (multilineCommand_at 1700000000) (multilineCommand_at 1700000060)
      \<lparr>Command = ''ls'', Time = 1234567890, Duration = 3\<rparr> \<and>
   ValidString ('': 1234567890:3;ls'' @ [newline] @ '': 1234567895:0;echo a ''
         @ [backslash, newline] @ ''  b'' @ [newline]) \<and>
   main_output
      [Some ('': 1234567890:3;ls'' @ [newline] @ '': 1234567895:0;echo a ''
         @ [backslash, newline] @ ''  b'' @ [newline])]
      (multilineCommand_at 1700000060)
      ('': 1234567890:3;ls'' @ [newline] @ '': 1234567895:0;echo a '' @ [backslash, newline]
         @ ''  b'' @ [newline])"
proof -
  let ?in1 = "'': 1234567895:0;echo a '' @ [backslash, newline] @ ''  b'' @ [newline]
               @ '': 1234567890:3;ls'' @ [newline]"
  let ?out = "'': 1234567890:3;ls'' @ [newline] @ '': 1234567895:0;echo a ''
         @ [backslash, newline] @ ''  b'' @ [newline]"
  let ?t1 = "multilineCommand_at 1700000000"
  let ?t2 = "multilineCommand_at 1700000060"
  let ?ec = "\<lparr>Command = ''echo a '' @ ?t1 @ ''  b'', Time = 1234567895, Duration = 0\<rparr>"
  let ?ls = "\<lparr>Command = ''ls'', Time = 1234567890, Duration = 3\<rparr>"
  let ?m = "Map.empty(''echo a '' @ ?t1 @ ''  b'' \<mapsto> ?ec, ''ls'' \<mapsto> ?ls)"
  have tk: "?t1 = ''TO_BE_REMOVED_1700000000''" "?t2 = ''TO_BE_REMOVED_1700000060''"
    by (simp_all add: multilineCommand_at_def string_defs)
  have p: "process_files [Some ?in1] ?t1 Map.empty = Inr ?m"
    by (simp add: pipeline_defs string_defs utf8_defs)
  have r: "range_order ?m [''echo a '' @ ?t1 @ ''  b'', ''ls'']"
    by (auto simp: range_order_def)
  have s: "sort_Slice_Time (map (\<lambda>k. the (?m k)) [''echo a '' @ ?t1 @ ''  b'', ''ls''])
      [?ls, ?ec]"
    by (simp add: sort_Slice_Time_def)
  have f: "?out = concat (map (format_entry ?t1) [?ls, ?ec])"
    by (simp add: pipeline_defs string_defs)
  have "outputMergedCommands ?m ?t1 ?out"
    unfolding outputMergedCommands_def emitted_entries_def using r s f by blast
  then have o: "main_output [Some ?in1] ?t1 ?out" using main_output_iff [OF p] by blast
  have s1: "rerun_safe ?t1 ?t2 ?ec"
    unfolding tk
    by (simp add: rerun_safe_def sublist_code timestamp_here_def string_defs)
  have s2: "rerun_safe ?t1 ?t2 ?ls"
    unfolding tk
    by (simp add: rerun_safe_def sublist_code timestamp_here_def string_defs)
  have sf: "\<forall>e \<in> ran ?m. rerun_safe ?t1 ?t2 e"
    using s1 s2 by (auto simp: ran_def split: if_splits)
  have ij: "inj_on (\<lambda>k. Time (the (?m k))) (dom ?m)"
    by (simp add: multilineCommand_at_def)
  have v: "ValidString ?out" by (simp add: utf8_defs string_defs)
  have l: "\<forall>l \<in> set (Split newline ?out). length l < MaxScanTokenSize \<and> dropCR l = l"
    by (simp add: MaxScanTokenSize_def dropCR_def string_defs)
  from rerun_on_own_output [OF p o sf ij v l]
  have "main_output [Some ?out] ?t2 ?out" by blast
  then show ?thesis using p o s1 s2 v by blast
qed


end
